theory Spec2Isabelle
  imports Main "HOL-Library.Word"
begin

unbundle bit_operations_syntax

chapter \<open>The adaptive hash index of btr0sea.cc\<close>

text \<open>
  A shallow embedding of \<^verbatim>\<open>storage/innobase/btr/btr0sea.cc\<close>. Unsigned counters of the
  source (\<^verbatim>\<open>ulint\<close>, \<^verbatim>\<open>size_t\<close>) are natural numbers; where the source narrows a
  value (\<^verbatim>\<open>static_cast<uint16_t>\<close>, the \<^verbatim>\<open>uint16_t\<close> local \<^verbatim>\<open>n_unique\<close>) the
  reduction modulo \<open>2 ^ 16\<close> is written out. Pointers to records are addresses
  (natural numbers); pointers to index objects and buffer blocks are keys into the
  respective stores. Latches are not modelled: every function is the sequential
  behaviour of the source between its latch acquisitions.
\<close>

section \<open>Model\<close>

subsection \<open>Tunable limits\<close>

definition BTR_SEARCH_PAGE_BUILD_LIMIT :: nat where
  "BTR_SEARCH_PAGE_BUILD_LIMIT = 16"

definition BTR_SEARCH_BUILD_LIMIT :: nat where
  "BTR_SEARCH_BUILD_LIMIT = 100"

subsection \<open>Index metadata and the per-index search info\<close>

text \<open>
  \<^verbatim>\<open>dict_index_t::ahi\<close>, the search info of an index. The structure is declared outside
  the translation unit; the fields are the ones btr0sea.cc reads and writes.
\<close>

record ahi =
  ref_count :: nat
  hash_analysis :: nat
  last_hash_succ :: bool
  n_hash_potential :: nat
  n_fields :: nat
  n_bytes :: nat
  left_side :: bool

text \<open>
  Modelled from the spec: \<^verbatim>\<open>hash_analysis_reset()\<close> is a member of the search info that
  is declared outside btr0sea.cc; it restarts the analysis counter. Every field of the
  recommendation is assigned again by the caller right after it.
\<close>

definition hash_analysis_reset :: "ahi \<Rightarrow> ahi" where
  "hash_analysis_reset info = info\<lparr>hash_analysis := 0\<rparr>"

text \<open>One field of an index, as \<^verbatim>\<open>rec_fold\<close> reads it (\<^verbatim>\<open>dict_field_t\<close> and its column).\<close>

record dict_field =
  fixed_len :: nat
  is_nullable :: bool
  big_col :: bool

record dict_index =
  id_v :: nat
  n_uniq_in_tree :: nat
  is_ibuf :: bool
  freed :: bool
  not_redundant :: bool
  fields_v :: "dict_field list"
  search_info :: ahi

text \<open>\<^verbatim>\<open>uint16_t n_unique = dict_index_get_n_unique_in_tree(index)\<close>: a 16-bit value.\<close>

definition dict_index_get_n_unique_in_tree :: "dict_index \<Rightarrow> nat" where
  "dict_index_get_n_unique_in_tree index = n_uniq_in_tree index mod 2 ^ 16"

subsection \<open>The B-tree cursor\<close>

text \<open>
  \<^verbatim>\<open>enum btr_cur_method\<close>: the two values btr0sea.cc names, and the value a cursor has
  after a search that went through the tree.
\<close>

datatype btr_cur_method = BTR_CUR_HASH | BTR_CUR_HASH_FAIL | BTR_CUR_BINARY

text \<open>
  \<^verbatim>\<open>btr_cur_t\<close>. \<open>index_p\<close> is \<^verbatim>\<open>cursor->index()\<close>, \<open>block_p\<close> and \<open>rec_p\<close> are
  \<^verbatim>\<open>cursor->page_cur.block\<close> and \<^verbatim>\<open>cursor->page_cur.rec\<close>.
\<close>

record btr_cur =
  index_p :: nat
  block_p :: nat
  rec_p :: nat
  flag :: btr_cur_method
  up_match :: nat
  up_bytes :: nat
  low_match :: nat
  low_bytes :: nat
  n_fields :: nat
  n_bytes :: nat
  fold_v :: "32 word"

subsection \<open>The per-index heuristic\<close>

text \<open>
  Modelled from the spec: \<^verbatim>\<open>ut_pair_cmp\<close> is declared outside btr0sea.cc; the spec calls
  it the lexicographic comparison of two pairs. The result is negative, zero or positive.
\<close>

definition ut_pair_cmp :: "nat \<Rightarrow> nat \<Rightarrow> nat \<Rightarrow> nat \<Rightarrow> int" where
  "ut_pair_cmp a_h a_l b_h b_l =
     (if a_h < b_h then - 1
      else if a_h > b_h then 1
      else if a_l < b_l then - 1
      else if a_l > b_l then 1
      else 0)"

text \<open>The block of btr\_search\_info\_update\_hash at the label \<^verbatim>\<open>set_new_recomm\<close>.\<close>

definition set_new_recomm :: "btr_cur \<Rightarrow> nat \<Rightarrow> ahi \<Rightarrow> ahi" where
  "set_new_recomm cursor n_unique info0 =
     (let info = hash_analysis_reset info0;
          cmp = ut_pair_cmp (up_match cursor) (up_bytes cursor)
                            (low_match cursor) (low_bytes cursor);
          info = info\<lparr>left_side := (cmp \<ge> 0)\<rparr>;
          info = info\<lparr>n_hash_potential := (if cmp \<noteq> 0 then 1 else 0)\<rparr>
      in if cmp = 0 then
           info\<lparr>ahi.n_fields := 1, ahi.n_bytes := 0\<rparr>
         else if cmp > 0 then
           (let info = info\<lparr>n_hash_potential := 1\<rparr>
            in if up_match cursor \<ge> n_unique then
                 info\<lparr>ahi.n_fields := n_unique, ahi.n_bytes := 0\<rparr>
               else if low_match cursor < up_match cursor then
                 info\<lparr>ahi.n_fields := (low_match cursor + 1) mod 2 ^ 16, ahi.n_bytes := 0\<rparr>
               else
                 info\<lparr>ahi.n_fields := low_match cursor mod 2 ^ 16,
                      ahi.n_bytes := (low_bytes cursor + 1) mod 2 ^ 16\<rparr>)
         else
           (if low_match cursor \<ge> n_unique then
              info\<lparr>ahi.n_fields := n_unique, ahi.n_bytes := 0\<rparr>
            else if low_match cursor > up_match cursor then
              info\<lparr>ahi.n_fields := (up_match cursor + 1) mod 2 ^ 16, ahi.n_bytes := 0\<rparr>
            else
              info\<lparr>ahi.n_fields := up_match cursor mod 2 ^ 16,
                   ahi.n_bytes := (up_bytes cursor + 1) mod 2 ^ 16\<rparr>))"

text \<open>
  \<^verbatim>\<open>btr_search_info_update_hash(cursor)\<close>, on the index object the cursor points to. The
  label \<^verbatim>\<open>increment_potential\<close> is the plain increment of the counter.
\<close>

definition increment_potential :: "ahi \<Rightarrow> ahi" where
  "increment_potential info = info\<lparr>n_hash_potential := n_hash_potential info + 1\<rparr>"

definition btr_search_info_update_hash :: "btr_cur \<Rightarrow> dict_index \<Rightarrow> dict_index" where
  "btr_search_info_update_hash cursor index =
     (if is_ibuf index then index
      else
        let n_unique = dict_index_get_n_unique_in_tree index;
            info = search_info index
        in index\<lparr>search_info :=
             (if n_hash_potential info = 0 then set_new_recomm cursor n_unique info
              else if ahi.n_fields info \<ge> n_unique \<and> up_match cursor \<ge> n_unique then
                increment_potential info
              else
                let cmp = ut_pair_cmp (ahi.n_fields info) (ahi.n_bytes info)
                                      (low_match cursor) (low_bytes cursor)
                in if (if left_side info then cmp \<le> 0 else cmp > 0) then
                     set_new_recomm cursor n_unique info
                   else
                     let cmp = ut_pair_cmp (ahi.n_fields info) (ahi.n_bytes info)
                                           (up_match cursor) (up_bytes cursor)
                     in if (if left_side info then cmp \<le> 0 else cmp > 0) then
                          increment_potential info
                        else set_new_recomm cursor n_unique info)\<rparr>)"

subsection \<open>Index pages and buffer blocks\<close>

text \<open>
  \<^verbatim>\<open>enum rec_comp_status\<close> is declared outside btr0sea.cc; the file names two of its
  values, the other ones are listed for completeness of the type.
\<close>

datatype rec_comp_status =
  REC_STATUS_ORDINARY | REC_STATUS_NODE_PTR | REC_STATUS_INFIMUM |
  REC_STATUS_SUPREMUM | REC_STATUS_INSTANT

text \<open>
  An index page as btr0sea.cc looks at it through the page accessors. \<open>n_recs\<close> is the
  header field read by \<^verbatim>\<open>page_get_n_recs\<close>, \<open>page_index_id\<close> the one read by
  \<^verbatim>\<open>btr_page_get_index_id\<close>. \<open>infimum\<close> and \<open>supremum\<close> are the addresses of the two
  pseudo-records, \<open>user_recs\<close> the addresses of the records linked between them, in page
  order. \<open>rec_metadata\<close> and \<open>rec_status\<close> are \<^verbatim>\<open>rec_is_metadata\<close> and
  \<^verbatim>\<open>rec_get_status\<close> on the records of the page.
\<close>

record page =
  n_recs :: nat
  page_index_id :: nat
  is_leaf :: bool
  has_prev :: bool
  has_next :: bool
  infimum :: nat
  supremum :: nat
  user_recs :: "nat list"
  rec_metadata :: "nat \<Rightarrow> bool"
  rec_status :: "nat \<Rightarrow> rec_comp_status"

definition page_get_n_recs :: "page \<Rightarrow> nat" where
  "page_get_n_recs pg = n_recs pg"

text \<open>
  The adaptive hash index fields of \<^verbatim>\<open>buf_block_t\<close>: the candidate signature with its
  counter \<open>n_hash_helps\<close>, the signature the page is currently hashed with, and the
  owning index (\<open>None\<close> is the null pointer). \<open>frame\<close> is the page in the block's frame,
  \<open>state_ok\<close> is \<^verbatim>\<open>block->page.state() >= buf_page_t::UNFIXED\<close>. A block is identified
  by the address of its frame.
\<close>

record buf_block =
  frame :: page
  state_ok :: bool
  n_hash_helps :: nat
  n_fields :: nat
  n_bytes :: nat
  left_side :: bool
  curr_n_fields :: nat
  curr_n_bytes :: nat
  curr_left_side :: bool
  index :: "nat option"

subsection \<open>The per-page helpfulness counter\<close>

text \<open>
  \<^verbatim>\<open>btr_search_update_block_hash_info(info, block)\<close>. The first statement of the
  function and its first \<^verbatim>\<open>if\<close>/\<^verbatim>\<open>else\<close> update the search info and the block's
  counter and candidate signature (\<open>block_hash_info_count\<close>); the second \<^verbatim>\<open>if\<close> decides
  on the updated values. The result is the returned flag with the updated search info
  and block.
\<close>

definition block_hash_info_count :: "ahi \<Rightarrow> buf_block \<Rightarrow> ahi \<times> buf_block" where
  "block_hash_info_count info0 block =
     (let info = info0\<lparr>last_hash_succ := False\<rparr>
      in if n_hash_helps block > 0
            \<and> n_hash_potential info > 0
            \<and> buf_block.n_fields block = ahi.n_fields info
            \<and> buf_block.n_bytes block = ahi.n_bytes info
            \<and> buf_block.left_side block = ahi.left_side info
         then
           ((if index block \<noteq> None
                \<and> curr_n_fields block = ahi.n_fields info
                \<and> curr_n_bytes block = ahi.n_bytes info
                \<and> curr_left_side block = ahi.left_side info
             then info\<lparr>last_hash_succ := True\<rparr> else info),
            block\<lparr>n_hash_helps := n_hash_helps block + 1\<rparr>)
         else
           (info,
            block\<lparr>n_hash_helps := 1,
                  buf_block.n_fields := ahi.n_fields info,
                  buf_block.n_bytes := ahi.n_bytes info,
                  buf_block.left_side := ahi.left_side info\<rparr>))"

definition btr_search_update_block_hash_info ::
  "ahi \<Rightarrow> buf_block \<Rightarrow> bool \<times> ahi \<times> buf_block" where
  "btr_search_update_block_hash_info info0 block0 =
     (let (info, block) = block_hash_info_count info0 block0
      in if n_hash_helps block
              > page_get_n_recs (frame block) div BTR_SEARCH_PAGE_BUILD_LIMIT
            \<and> n_hash_potential info \<ge> BTR_SEARCH_BUILD_LIMIT
         then
           (if index block = None
               \<or> n_hash_helps block > 2 * page_get_n_recs (frame block)
               \<or> buf_block.n_fields block \<noteq> curr_n_fields block
               \<or> buf_block.n_bytes block \<noteq> curr_n_bytes block
               \<or> buf_block.left_side block \<noteq> curr_left_side block
            then (True, info, block)
            else (False, info, block))
         else (False, info, block))"

subsection \<open>Folding a record and a tuple\<close>

text \<open>
  Modelled from the spec: \<^verbatim>\<open>my_crc32c(crc, buf, len)\<close> is defined outside the sources at
  hand; the spec names it CRC-32C. This is the bitwise algorithm over the reflected
  Castagnoli polynomial, with the customary complement of the running value on entry and
  on exit.
\<close>

definition crc32c_bit :: "32 word \<Rightarrow> 32 word" where
  "crc32c_bit c = (if bit c 0 then drop_bit 1 c XOR 0x82F63B78 else drop_bit 1 c)"

definition crc32c_byte :: "32 word \<Rightarrow> 8 word \<Rightarrow> 32 word" where
  "crc32c_byte c b = (crc32c_bit ^^ 8) (c XOR ucast b)"

definition my_crc32c :: "32 word \<Rightarrow> 8 word list \<Rightarrow> 32 word" where
  "my_crc32c crc buf = NOT (foldl crc32c_byte (NOT crc) buf)"

text \<open>
  Modelled from the spec: \<^verbatim>\<open>ut_fold_ull\<close> is defined outside the sources at hand. Both
  folds seed the CRC with \<^verbatim>\<open>uint32_t(ut_fold_ull(index.id))\<close>; the model takes the low
  32 bits of the identifier for it.
\<close>

definition ut_fold_ull :: "nat \<Rightarrow> nat" where
  "ut_fold_ull d = d"

definition fold_seed :: "dict_index \<Rightarrow> 32 word" where
  "fold_seed ix = of_nat (ut_fold_ull (id_v ix))"

text \<open>
  The memory around the origin of a record, as \<^verbatim>\<open>rec_fold\<close> reads it. \<open>data k\<close> is the
  byte at \<^verbatim>\<open>rec + k\<close>. In the compact format \<open>null_bytes k\<close> is the byte the pointer
  \<^verbatim>\<open>nulls\<close> reads after \<open>k\<close> decrements and \<open>len_bytes k\<close> the byte the pointer
  \<^verbatim>\<open>lens\<close> reads after \<open>k\<close> decrements. In the redundant format \<open>short_offs\<close> is
  \<^verbatim>\<open>rec_get_1byte_offs_flag(rec)\<close>, and \<open>end_info_1 n\<close> and \<open>end_info_2 n\<close> are what
  \<^verbatim>\<open>rec_1_get_field_end_info(rec, n)\<close> and \<^verbatim>\<open>rec_2_get_field_end_info(rec, n)\<close>
  return; these accessors are declared outside btr0sea.cc.
\<close>

record rec_image =
  data :: "nat \<Rightarrow> 8 word"
  null_bytes :: "nat \<Rightarrow> 8 word"
  len_bytes :: "nat \<Rightarrow> 8 word"
  short_offs :: bool
  end_info_1 :: "nat \<Rightarrow> nat"
  end_info_2 :: "nat \<Rightarrow> nat"

text \<open>Arithmetic of \<^verbatim>\<open>size_t\<close>: sums and differences wrap around at \<open>2 ^ 64\<close>.\<close>

definition size_add :: "nat \<Rightarrow> nat \<Rightarrow> nat" where
  "size_add a b = (a + b) mod 2 ^ 64"

definition size_sub :: "nat \<Rightarrow> nat \<Rightarrow> nat" where
  "size_sub a b = (a + 2 ^ 64 - b mod 2 ^ 64) mod 2 ^ 64"

text \<open>
  The locals of the loop of \<^verbatim>\<open>rec_fold\<close> over the fields of a compact record: how far
  \<^verbatim>\<open>nulls\<close> and \<^verbatim>\<open>lens\<close> have moved, the mask, the running length \<open>n\<close> and the
  length \<open>len\<close> of the field handled last.
\<close>

record fold_locals =
  nulls_at :: nat
  null_mask :: "8 word"
  lens_at :: nat
  n_acc :: nat
  len_acc :: nat

text \<open>One pass through the body of the \<^verbatim>\<open>do\<close> loop, for one field.\<close>

definition rec_fold_field :: "rec_image \<Rightarrow> dict_field \<Rightarrow> fold_locals \<Rightarrow> fold_locals" where
  "rec_fold_field r field st0 =
     (let st1 =
            (if is_nullable field \<and> null_mask st0 = 0
             then st0\<lparr>null_mask := 1, nulls_at := nulls_at st0 + 1\<rparr> else st0);
          is_null = (is_nullable field \<and> null_bytes r (nulls_at st1) AND null_mask st1 \<noteq> 0);
          st2 = (if is_nullable field then st1\<lparr>null_mask := push_bit 1 (null_mask st1)\<rparr>
                 else st1)
      in if is_null then st2\<lparr>len_acc := 0\<rparr>
         else
           let st3 =
                 (if fixed_len field \<noteq> 0 then st2\<lparr>len_acc := fixed_len field\<rparr>
                  else
                    let len = unat (len_bytes r (lens_at st2));
                        st = st2\<lparr>lens_at := lens_at st2 + 1\<rparr>
                    in if len AND 0x80 \<noteq> 0 \<and> big_col field
                       then st\<lparr>len_acc := (push_bit 8 len OR unat (len_bytes r (lens_at st)))
                                              AND 0x3fff,
                               lens_at := lens_at st + 1\<rparr>
                       else st\<lparr>len_acc := len\<rparr>)
           in st3\<lparr>n_acc := size_add (n_acc st3) (len_acc st3)\<rparr>)"

text \<open>
  The number of bytes \<^verbatim>\<open>rec_fold\<close> hands to the CRC, the local \<open>n\<close> at the
  \<^verbatim>\<open>return\<close>; \<open>nf\<close> and \<open>nb\<close> are the parameters \<^verbatim>\<open>n_fields\<close> and
  \<^verbatim>\<open>n_bytes\<close>. The \<^verbatim>\<open>do\<close> loop runs over the first \<open>n_f\<close> fields of the index.
\<close>

definition rec_fold_n :: "rec_image \<Rightarrow> dict_index \<Rightarrow> nat \<Rightarrow> nat \<Rightarrow> nat" where
  "rec_fold_n r ix nf nb =
     (let n_f = nf + (if nb \<noteq> 0 then 1 else 0)
      in if not_redundant ix then
           let st = foldl (\<lambda>st field. rec_fold_field r field st)
                      \<lparr>nulls_at = 0, null_mask = 1, lens_at = 0, n_acc = 0, len_acc = 0\<rparr>
                      (take n_f (fields_v ix))
           in if nb \<noteq> 0
              then size_add (n_acc st) (size_sub (min nb (len_acc st)) (len_acc st))
              else n_acc st
         else
           let end_info = (if short_offs r then end_info_1 r else end_info_2 r);
               n = end_info (n_f - 1)
           in if nb = 0 then n
              else if nf = 0 then min nb n
              else
                let len = size_sub n (end_info (n_f - 2))
                in size_add n (size_sub (min nb (size_sub n len)) len))"

definition rec_fold :: "rec_image \<Rightarrow> dict_index \<Rightarrow> nat \<Rightarrow> nat \<Rightarrow> 32 word" where
  "rec_fold r ix nf nb =
     my_crc32c (fold_seed ix) (map (data r) [0 ..< rec_fold_n r ix nf nb])"

text \<open>
  A field of a data tuple: its bytes, or SQL NULL. For a NULL field \<open>sql_null_size\<close> is
  what \<^verbatim>\<open>dtype_get_sql_null_size\<close> returns for the type of the field.
\<close>

datatype dfield = Data "8 word list" | Sql_Null (sql_null_size: nat)

text \<open>
  The bytes a field contributes to \<^verbatim>\<open>dtuple_fold\<close>: \<open>None\<close> where the source skips the
  field (\<^verbatim>\<open>continue\<close>, or \<^verbatim>\<open>return fold\<close> for the incomplete last field).
\<close>

definition dfield_bytes :: "bool \<Rightarrow> dfield \<Rightarrow> 8 word list option" where
  "dfield_bytes compact field =
     (case field of
        Data bytes \<Rightarrow> Some bytes
      | Sql_Null sz \<Rightarrow> if \<not> compact then Some (replicate sz 0) else None)"

text \<open>
  \<^verbatim>\<open>dtuple_fold(tuple, cursor)\<close>, with the index the cursor points to. The result is
  \<open>None\<close> where \<^verbatim>\<open>dtuple_get_nth_field\<close> would be asked for a field the tuple does
  not have.
\<close>

definition dtuple_fold :: "dict_index \<Rightarrow> dfield list \<Rightarrow> btr_cur \<Rightarrow> 32 word option" where
  "dtuple_fold ix tuple cursor =
     (let compact = not_redundant ix;
          n_f = btr_cur.n_fields cursor + (if btr_cur.n_bytes cursor \<noteq> 0 then 1 else 0)
      in if length tuple < n_f then None
         else
           let fold = foldl (\<lambda>fold field.
                               case dfield_bytes compact field of
                                 None \<Rightarrow> fold
                               | Some bytes \<Rightarrow> my_crc32c fold bytes)
                        (fold_seed ix) (take (btr_cur.n_fields cursor) tuple)
           in if btr_cur.n_bytes cursor \<noteq> 0 then
                (case dfield_bytes compact (tuple ! btr_cur.n_fields cursor) of
                   None \<Rightarrow> Some fold
                 | Some bytes \<Rightarrow>
                     Some (my_crc32c fold
                             (take (min (btr_cur.n_bytes cursor) (length bytes)) bytes)))
              else Some fold)"

text \<open>
  Stated from the spec's words, for a record in the redundant format none of whose
  fields is NULL: field \<open>i\<close> of the record is the bytes between the end of field
  \<open>i - 1\<close> and the end of field \<open>i\<close>, and a tuple matches the record on \<open>nf\<close> complete
  fields and \<open>nb\<close> bytes of the next field when it has these fields and bytes.
\<close>

definition old_field :: "rec_image \<Rightarrow> nat \<Rightarrow> 8 word list" where
  "old_field r i =
     (let end_info = (if short_offs r then end_info_1 r else end_info_2 r)
      in map (data r) [(if i = 0 then 0 else end_info (i - 1)) ..< end_info i])"

definition tuple_matches_old :: "dfield list \<Rightarrow> rec_image \<Rightarrow> nat \<Rightarrow> nat \<Rightarrow> bool" where
  "tuple_matches_old tuple r nf nb =
     (nf + (if nb \<noteq> 0 then 1 else 0) \<le> length tuple
      \<and> list_all (\<lambda>i. tuple ! i = Data (old_field r i)) [0 ..< nf]
      \<and> (nb = 0 \<or> (case tuple ! nf of
                       Data bytes \<Rightarrow> take nb bytes = take nb (old_field r nf)
                     | Sql_Null sz \<Rightarrow> False)))"

subsection \<open>The per-page build: caching the entries\<close>




text \<open>
  Stated from the spec's words: the maximal runs of consecutive records with equal fold,
  the entry of a run (its leftmost record if \<open>left_side\<close>, else its rightmost), and the
  user records of a page that are hashed (all but a leading metadata record).
\<close>

fun fold_runs :: "('a \<Rightarrow> 'b) \<Rightarrow> 'a list \<Rightarrow> 'a list list" where
  "fold_runs f [] = []"
| "fold_runs f [x] = [[x]]"
| "fold_runs f (x # y # zs) =
     (if f x = f y
      then (case fold_runs f (y # zs) of [] \<Rightarrow> [[x]] | run # runs \<Rightarrow> (x # run) # runs)
      else [x] # fold_runs f (y # zs))"



subsection \<open>The hash table and its slab\<close>

text \<open>
  What the model returns where the source aborts (\<^verbatim>\<open>ut_a\<close>, \<^verbatim>\<open>ut_error\<close>) or where it
  would follow a null pointer or leave its slab.
\<close>

datatype error = Crash

text \<open>
  \<^verbatim>\<open>struct ahi_node\<close>, without its chain pointer: a bucket chain
  (\<^verbatim>\<open>cell->node\<close>, \<^verbatim>\<open>node->next\<close>, ... up to the null pointer) is the list of the
  pointers to its nodes, in chain order. A pointer to a node is the frame of its slab
  block and its offset in that frame.
\<close>

record ahi_node =
  fold_n :: "32 word"
  rec_n :: nat

type_synonym node_ptr = "nat \<times> nat"

text \<open>A slab block of \<^verbatim>\<open>blocks\<close>: its frame and the bump pointer \<^verbatim>\<open>free_offset\<close>.\<close>

record slab_block =
  slab_frame :: nat
  free_offset :: nat

text \<open>
  \<^verbatim>\<open>btr_sea\<close> with its one partition: the flag \<^verbatim>\<open>enabled\<close>, the table
  (\<open>n_cells\<close> cells, \<open>cells c\<close> the chain of cell \<open>c\<close>), the memory of the slab
  (\<open>nodes\<close>), the list \<^verbatim>\<open>blocks\<close> and \<^verbatim>\<open>spare\<close> (\<open>None\<close> is the null pointer).
\<close>

record btr_sea =
  enabled :: bool
  n_cells :: nat
  cells :: "nat \<Rightarrow> node_ptr list"
  nodes :: "node_ptr \<Rightarrow> ahi_node"
  blocks :: "slab_block list"
  spare :: "nat option"

text \<open>\<^verbatim>\<open>sizeof(ahi_node)\<close> on a 64-bit build without the debug field.\<close>

definition sizeof_ahi_node :: nat where
  "sizeof_ahi_node = 24"

text \<open>
  Modelled from the spec: \<^verbatim>\<open>hash_table_t::calc_hash\<close> and \<^verbatim>\<open>cell_get\<close> are declared
  outside btr0sea.cc; the spec gives \<open>cell = fold mod n_cells\<close>.
\<close>

definition calc_hash :: "btr_sea \<Rightarrow> 32 word \<Rightarrow> nat" where
  "calc_hash s fold0 = unat fold0 mod n_cells s"

definition cell_get :: "btr_sea \<Rightarrow> 32 word \<Rightarrow> node_ptr list" where
  "cell_get s fold0 = cells s (calc_hash s fold0)"

text \<open>
  \<^verbatim>\<open>btr_sea::partition::prepare_insert()\<close>; \<open>block\<close> is the frame of the block that
  \<^verbatim>\<open>buf_block_alloc()\<close> hands out. A block that is not installed goes back to the
  buffer pool.
\<close>

definition prepare_insert :: "nat \<Rightarrow> btr_sea \<Rightarrow> btr_sea" where
  "prepare_insert block s =
     (if spare s = None \<and> enabled s then s\<lparr>spare := Some block\<rparr> else s)"

text \<open>
  The allocation of a chain node in \<^verbatim>\<open>insert\<close>: from the last block if it has room,
  else from the spare block, else nothing (\<open>None\<close>: the function returns).
\<close>

definition slab_alloc :: "nat \<Rightarrow> btr_sea \<Rightarrow> (node_ptr \<times> btr_sea) option" where
  "slab_alloc srv_page_size s =
     (if blocks s \<noteq> [] \<and> free_offset (last (blocks s)) < srv_page_size - sizeof_ahi_node
      then
        let l = last (blocks s)
        in Some ((slab_frame l, free_offset l),
                 s\<lparr>blocks := butlast (blocks s)
                      @ [l\<lparr>free_offset := free_offset l + sizeof_ahi_node\<rparr>]\<rparr>)
      else
        case spare s of
          None \<Rightarrow> None
        | Some b \<Rightarrow>
            Some ((b, 0),
                  s\<lparr>spare := None,
                    blocks := blocks s @ [\<lparr>slab_frame = b, free_offset = sizeof_ahi_node\<rparr>]\<rparr>))"

text \<open>
  \<^verbatim>\<open>btr_sea::partition::insert(fold, rec)\<close>. The first loop overwrites the record of
  the first node of the chain with this fold; the last one appends the new node.
\<close>

definition partition_insert :: "nat \<Rightarrow> btr_sea \<Rightarrow> 32 word \<Rightarrow> nat \<Rightarrow> btr_sea" where
  "partition_insert srv_page_size s fold0 rec =
     (let c = calc_hash s fold0
      in case find (\<lambda>prev. fold_n (nodes s prev) = fold0) (cells s c) of
           Some prev \<Rightarrow> s\<lparr>nodes := (nodes s)(prev := (nodes s prev)\<lparr>rec_n := rec\<rparr>)\<rparr>
         | None \<Rightarrow>
             (case slab_alloc srv_page_size s of
                None \<Rightarrow> s
              | Some (node, s1) \<Rightarrow>
                  s1\<lparr>nodes := (nodes s1)(node := \<lparr>fold_n = fold0, rec_n = rec\<rparr>),
                     cells := (cells s1)(c := cells s1 c @ [node])\<rparr>))"

text \<open>
  The walk \<^verbatim>\<open>while (*prev != top) prev= &(*prev)->next; *prev= erase;\<close>: the first
  pointer to \<open>top\<close> in the chain is redirected. \<open>None\<close> where the walk reaches the end
  of the chain.
\<close>

fun replace_first :: "node_ptr \<Rightarrow> node_ptr \<Rightarrow> node_ptr list \<Rightarrow> node_ptr list option" where
  "replace_first top_node erase [] = None"
| "replace_first top_node erase (p # ps) =
     (if p = top_node then Some (erase # ps)
      else map_option ((#) p) (replace_first top_node erase ps))"

text \<open>
  The block of \<^verbatim>\<open>cleanup_after_erase\<close> under \<^verbatim>\<open>if (erase != top)\<close>: the top node is
  copied into the erased slot and the chain of the cell of its fold is redirected to the
  copy.
\<close>

definition move_top :: "btr_sea \<Rightarrow> node_ptr \<Rightarrow> node_ptr \<Rightarrow> error + btr_sea" where
  "move_top s erase top_node =
     (if erase \<noteq> top_node then
        let s1 = s\<lparr>nodes := (nodes s)(erase := nodes s top_node)\<rparr>;
            c = calc_hash s1 (fold_n (nodes s1 top_node))
        in case replace_first top_node erase (cells s1 c) of
             None \<Rightarrow> Inl Crash
           | Some chain \<Rightarrow> Inr (s1\<lparr>cells := (cells s1)(c := chain)\<rparr>)
      else Inr s)"

text \<open>
  \<^verbatim>\<open>btr_sea::partition::cleanup_after_erase(erase)\<close>. The result is the block to hand
  back to the buffer pool, if any, and the new state. The model stops where the list of
  blocks is empty or the last block holds no node.
\<close>

definition cleanup_after_erase ::
  "btr_sea \<Rightarrow> node_ptr \<Rightarrow> error + (nat option \<times> btr_sea)" where
  "cleanup_after_erase s erase =
     (if blocks s = [] \<or> free_offset (last (blocks s)) < sizeof_ahi_node then Inl Crash
      else
        let l = last (blocks s);
            top_node = (slab_frame l, free_offset l - sizeof_ahi_node)
        in case move_top s erase top_node of
             Inl e \<Rightarrow> Inl e
           | Inr s2 \<Rightarrow>
               if free_offset l - sizeof_ahi_node = 0 then
                 (if spare s2 \<noteq> None
                  then Inr (Some (slab_frame l), s2\<lparr>blocks := butlast (blocks s2)\<rparr>)
                  else Inr (None, s2\<lparr>spare := Some (slab_frame l),
                                     blocks := butlast (blocks s2)\<rparr>))
               else
                 Inr (None, s2\<lparr>blocks := butlast (blocks s2)
                                 @ [l\<lparr>free_offset := free_offset l - sizeof_ahi_node\<rparr>]\<rparr>))"

text \<open>
  The walk over a chain with \<^verbatim>\<open>ahi_node **prev\<close> that unlinks the first node
  satisfying a test: the node and the chain without it, \<open>None\<close> if there is no such
  node.
\<close>

fun unlink_first :: "(node_ptr \<Rightarrow> bool) \<Rightarrow> node_ptr list \<Rightarrow> (node_ptr \<times> node_ptr list) option" where
  "unlink_first P [] = None"
| "unlink_first P (p # ps) =
     (if P p then Some (p, ps)
      else map_option (\<lambda>(node, chain). (node, p # chain)) (unlink_first P ps))"

text \<open>
  \<^verbatim>\<open>btr_sea::partition::erase(fold, rec)\<close>: whether a node was erased, the block to
  hand back to the buffer pool, and the new state.
\<close>

definition partition_erase ::
  "btr_sea \<Rightarrow> 32 word \<Rightarrow> nat \<Rightarrow> error + (bool \<times> nat option \<times> btr_sea)" where
  "partition_erase s fold0 rec =
     (let c = calc_hash s fold0
      in case unlink_first (\<lambda>node. rec_n (nodes s node) = rec) (cells s c) of
           None \<Rightarrow> Inr (False, None, s)
         | Some (node, chain) \<Rightarrow>
             (case cleanup_after_erase (s\<lparr>cells := (cells s)(c := chain)\<rparr>) node of
                Inl e \<Rightarrow> Inl e
              | Inr (block, s1) \<Rightarrow> Inr (True, block, s1)))"

text \<open>\<^verbatim>\<open>ha_search_and_update_if_found(table, fold, data, new_data)\<close>.\<close>

definition ha_search_and_update_if_found ::
  "btr_sea \<Rightarrow> 32 word \<Rightarrow> nat \<Rightarrow> nat \<Rightarrow> bool \<times> btr_sea" where
  "ha_search_and_update_if_found s fold0 data0 new_data =
     (if \<not> enabled s then (False, s)
      else case find (\<lambda>node. rec_n (nodes s node) = data0) (cell_get s fold0) of
             None \<Rightarrow> (False, s)
           | Some node \<Rightarrow>
               (True, s\<lparr>nodes := (nodes s)(node := (nodes s node)\<lparr>rec_n := new_data\<rparr>)\<rparr>))"

text \<open>The cleanup keeps the number of cells and the length of every chain.\<close>

lemma replace_first_length:
  "replace_first top_node erase chain = Some chain' \<Longrightarrow> length chain' = length chain"
  by (induction chain arbitrary: chain') (auto split: if_splits)

lemma unlink_first_length:
  "unlink_first P chain = Some (node, chain') \<Longrightarrow> Suc (length chain') = length chain"
  by (induction chain arbitrary: chain') (auto split: if_splits)

lemma cleanup_after_erase_shape:
  assumes "cleanup_after_erase s erase = Inr (block, s')"
  shows "n_cells s' = n_cells s" and "enabled s' = enabled s"
    and "length (cells s' c) = length (cells s c)"
  using assms
  by (auto simp: cleanup_after_erase_def move_top_def Let_def calc_hash_def
      split: if_splits option.splits sum.splits dest: replace_first_length)

text \<open>
  \<^verbatim>\<open>ha_remove_all_nodes_to_page(table, fold, page)\<close>: after each deletion the walk
  over the chain starts again (\<^verbatim>\<open>goto rewind\<close>). A block that
  \<^verbatim>\<open>cleanup_after_erase\<close> returns goes back to the buffer pool.
\<close>

function ha_remove_all_nodes_to_page ::
  "nat \<Rightarrow> btr_sea \<Rightarrow> 32 word \<Rightarrow> nat \<Rightarrow> error + btr_sea" where
  "ha_remove_all_nodes_to_page srv_page_size s fold0 page0 =
     (let c = calc_hash s fold0
      in case unlink_first (\<lambda>node. (rec_n (nodes s node) XOR page0) < srv_page_size)
                (cells s c) of
           None \<Rightarrow> Inr s
         | Some (node, chain) \<Rightarrow>
             (case cleanup_after_erase (s\<lparr>cells := (cells s)(c := chain)\<rparr>) node of
                Inl e \<Rightarrow> Inl e
              | Inr (block, s1) \<Rightarrow> ha_remove_all_nodes_to_page srv_page_size s1 fold0 page0))"
  by pat_completeness auto
termination
proof (relation "measure (\<lambda>(ps, s, fold0, page0). length (cells s (calc_hash s fold0)))")
  show "wf (measure (\<lambda>(ps, s, fold0, page0). length (cells s (calc_hash s fold0))))"
    by simp
next
  fix srv_page_size s fold0 page0 c x2 node chain r block s1
  assume c: "c = calc_hash s fold0"
    and u: "unlink_first (\<lambda>node. (rec_n (nodes s node) XOR page0) < srv_page_size) (cells s c)
            = Some x2"
    and x2: "(node, chain) = x2"
    and cl: "cleanup_after_erase (s\<lparr>cells := (cells s)(c := chain)\<rparr>) node = Inr r"
    and r: "(block, s1) = r"
  from cl r have cl': "cleanup_after_erase (s\<lparr>cells := (cells s)(c := chain)\<rparr>) node
                       = Inr (block, s1)" by simp
  have "calc_hash s1 fold0 = c"
    using cleanup_after_erase_shape(1) [OF cl'] c by (simp add: calc_hash_def)
  moreover have "length (cells s1 c) = length chain"
    using cleanup_after_erase_shape(3) [OF cl', of c] by simp
  moreover have "Suc (length chain) = length (cells s c)"
    using u x2 unlink_first_length by metis
  ultimately show "((srv_page_size, s1, fold0, page0), (srv_page_size, s, fold0, page0))
        \<in> measure (\<lambda>(ps, s, fold0, page0). length (cells s (calc_hash s fold0)))"
    using c by simp
qed

declare ha_remove_all_nodes_to_page.simps [simp del]

subsection \<open>Well-formed tables\<close>

text \<open>
  The node slots in use: in every slab block the offsets below \<^verbatim>\<open>free_offset\<close> that are
  multiples of the node size.
\<close>

definition block_nodes :: "slab_block \<Rightarrow> node_ptr set" where
  "block_nodes b = {(slab_frame b, k * sizeof_ahi_node) | k. k * sizeof_ahi_node < free_offset b}"

definition allocated :: "btr_sea \<Rightarrow> node_ptr set" where
  "allocated s = (\<Union>b \<in> set (blocks s). block_nodes b)"

text \<open>
  The slab is well formed: the blocks are distinct buffer blocks, each holds a whole
  positive number of nodes, and the spare block is none of them.
\<close>

definition slab_wf :: "btr_sea \<Rightarrow> bool" where
  "slab_wf s =
     (distinct (map slab_frame (blocks s))
      \<and> list_all (\<lambda>b. free_offset b > 0 \<and> sizeof_ahi_node dvd free_offset b) (blocks s)
      \<and> spare s \<notin> Some ` slab_frame ` set (blocks s))"

text \<open>
  The chains are well formed over a set \<open>A\<close> of node slots: there is at least one cell,
  no node is linked twice, the linked nodes are exactly \<open>A\<close>, and every node is in the
  chain of the cell of its fold.
\<close>

definition chains_wf :: "btr_sea \<Rightarrow> node_ptr set \<Rightarrow> bool" where
  "chains_wf s A =
     (n_cells s > 0
      \<and> (\<forall>c. distinct (cells s c))
      \<and> (\<forall>c c'. c \<noteq> c' \<longrightarrow> set (cells s c) \<inter> set (cells s c') = {})
      \<and> (\<Union>c. set (cells s c)) = A
      \<and> (\<forall>c. \<forall>p \<in> set (cells s c). calc_hash s (fold_n (nodes s p)) = c))"

definition table_wf :: "btr_sea \<Rightarrow> bool" where
  "table_wf s = (slab_wf s \<and> chains_wf s (allocated s))"

subsection \<open>Reachable tables\<close>

text \<open>
  The table right after \<^verbatim>\<open>btr_sea::enable\<close>: \<open>n\<close> empty cells, no slab block, no spare
  block; \<open>mem\<close> is whatever the memory holds.
\<close>

definition empty_table :: "nat \<Rightarrow> (node_ptr \<Rightarrow> ahi_node) \<Rightarrow> btr_sea" where
  "empty_table n mem =
     \<lparr>enabled = True, n_cells = n, cells = (\<lambda>c. []), nodes = mem, blocks = [], spare = None\<rparr>"

text \<open>
  The states of the hash table that the operations of the partition reach from an empty
  table. \<^verbatim>\<open>prepare_insert\<close> receives from the buffer pool a block that is not one of
  the slab blocks.
\<close>

inductive reachable :: "nat \<Rightarrow> btr_sea \<Rightarrow> bool" for srv_page_size :: nat where
  reach_empty: "n > 0 \<Longrightarrow> reachable srv_page_size (empty_table n mem)"
| reach_prepare:
    "reachable srv_page_size s \<Longrightarrow> block \<notin> slab_frame ` set (blocks s)
     \<Longrightarrow> reachable srv_page_size (prepare_insert block s)"
| reach_insert:
    "reachable srv_page_size s \<Longrightarrow> reachable srv_page_size (partition_insert srv_page_size s fold0 rec)"
| reach_erase:
    "reachable srv_page_size s \<Longrightarrow> partition_erase s fold0 rec = Inr (found, block, s')
     \<Longrightarrow> reachable srv_page_size s'"
| reach_remove:
    "reachable srv_page_size s \<Longrightarrow> ha_remove_all_nodes_to_page srv_page_size s fold0 page0 = Inr s'
     \<Longrightarrow> reachable srv_page_size s'"
| reach_update:
    "reachable srv_page_size s \<Longrightarrow> ha_search_and_update_if_found s fold0 data0 new_data = (found, s')
     \<Longrightarrow> reachable srv_page_size s'"

definition ex_mem :: "node_ptr \<Rightarrow> ahi_node" where
  "ex_mem = (\<lambda>p. \<lparr>fold_n = 0, rec_n = 0\<rparr>)"

definition ex_table :: btr_sea where
  "ex_table =
     partition_insert 16384
       (partition_insert 16384 (prepare_insert 32768 (empty_table 5 ex_mem)) 7 16500) 8 16600"

subsection \<open>A reachable table after a compaction\<close>

definition ex_erased :: btr_sea where
  "ex_erased = (case partition_erase ex_table 7 16500 of
                  Inr (found, block, s') \<Rightarrow> s' | Inl e \<Rightarrow> ex_table)"

subsection \<open>Insertion and the spare block\<close>

text \<open>
  What \<^verbatim>\<open>insert\<close> tests before it allocates from the last block: there is no block, or
  the last block is full.
\<close>

definition slab_full :: "nat \<Rightarrow> btr_sea \<Rightarrow> bool" where
  "slab_full srv_page_size s =
     (blocks s = [] \<or> \<not> free_offset (last (blocks s)) < srv_page_size - sizeof_ahi_node)"

subsection \<open>Dropping the hash index of a page\<close>

text \<open>
  Modelled from the spec: the page accessors are declared in page0page.h, outside the
  sources at hand. They are read off the model of a page, where the user records are
  the list linked between the two pseudo-records. \<^verbatim>\<open>page_rec_get_next_const\<close> and
  \<^verbatim>\<open>page_rec_get_prev\<close> return the null pointer (\<open>None\<close>) for a record that is not
  linked in the page.
\<close>

definition page_rec_is_infimum :: "page \<Rightarrow> nat \<Rightarrow> bool" where
  "page_rec_is_infimum pg rec = (rec = infimum pg)"

definition page_rec_is_supremum :: "page \<Rightarrow> nat \<Rightarrow> bool" where
  "page_rec_is_supremum pg rec = (rec = supremum pg)"


fun next_in_list :: "nat \<Rightarrow> nat list \<Rightarrow> nat \<Rightarrow> nat option" where
  "next_in_list rec [] supr = None"
| "next_in_list rec (r # rs) supr =
     (if r = rec then Some (case rs of [] \<Rightarrow> supr | r' # rs' \<Rightarrow> r')
      else next_in_list rec rs supr)"

definition page_rec_get_next_const :: "page \<Rightarrow> nat \<Rightarrow> nat option" where
  "page_rec_get_next_const pg rec =
     (if rec = infimum pg
      then Some (case user_recs pg of [] \<Rightarrow> supremum pg | r # rs \<Rightarrow> r)
      else next_in_list rec (user_recs pg) (supremum pg))"



text \<open>
  The state the functions of btr0sea.cc work on: the adaptive hash index
  \<^verbatim>\<open>btr_search\<close>, the global \<^verbatim>\<open>srv_page_size\<close>, the blocks of the buffer pool by the
  address of their frame, the index objects of the dictionary by their address, and the
  memory of the records by their address. \<open>lazy_freed\<close> lists the indexes handed to
  \<^verbatim>\<open>btr_search_lazy_free\<close>.
\<close>

record world =
  btr_search :: btr_sea
  srv_page_size :: nat
  buf_pool :: "nat \<Rightarrow> buf_block"
  dict :: "nat \<Rightarrow> dict_index"
  rec_mem :: "nat \<Rightarrow> rec_image"
  lazy_freed :: "nat list"

text \<open>\<^verbatim>\<open>rec_fold(rec, *index, n_fields, n_bytes)\<close> for a record and an index of the state.\<close>

definition rec_fold_at :: "world \<Rightarrow> nat \<Rightarrow> nat \<Rightarrow> nat \<Rightarrow> nat \<Rightarrow> 32 word" where
  "rec_fold_at w rec ix nf nb = rec_fold (rec_mem w rec) (dict w ix) nf nb"

text \<open>
  The loop of \<^verbatim>\<open>btr_search_drop_page_hash_index\<close> that caches the folds to delete:
  \<open>folds\<close> are the \<open>n_cached\<close> entries stored so far, the last argument is the record
  at hand with the records after it, up to the supremum.
\<close>

fun drop_folds_loop ::
  "(nat \<Rightarrow> 32 word) \<Rightarrow> nat \<Rightarrow> nat \<Rightarrow> 32 word list \<Rightarrow> nat list \<Rightarrow> 32 word list" where
  "drop_folds_loop fold_of n_recs0 prev_fold folds [] = folds"
| "drop_folds_loop fold_of n_recs0 prev_fold folds (rec # rest) =
     (if length folds \<ge> n_recs0 then folds
      else
        let fold0 = fold_of rec;
            folds' = (if unat fold0 = prev_fold \<and> prev_fold \<noteq> 0 then folds
                      else folds @ [fold0])
        in drop_folds_loop fold_of n_recs0 (unat fold0) folds' rest)"

text \<open>
  From \<^verbatim>\<open>rec = page_get_infimum_rec(page)\<close> to the label \<^verbatim>\<open>all_deleted\<close>. The record
  after the infimum, or after the metadata record, is the supremum on a page without
  further records; the loop then folds that one.
\<close>

definition drop_folds :: "(nat \<Rightarrow> 32 word) \<Rightarrow> page \<Rightarrow> 32 word list" where
  "drop_folds fold_of pg =
     (let walk = (case user_recs pg of [] \<Rightarrow> [supremum pg] | r # rs \<Rightarrow> r # rs);
          rec = hd walk
      in if rec_metadata pg rec then
           (if page_get_n_recs pg - 1 = 0 then []
            else drop_folds_loop fold_of (page_get_n_recs pg - 1) 0 []
                   (case tl walk of [] \<Rightarrow> [supremum pg] | r # rs \<Rightarrow> r # rs))
         else drop_folds_loop fold_of (page_get_n_recs pg) 0 [] walk)"

text \<open>The \<^verbatim>\<open>for\<close> loop over the cached folds.\<close>

fun remove_folds :: "nat \<Rightarrow> btr_sea \<Rightarrow> 32 word list \<Rightarrow> nat \<Rightarrow> error + btr_sea" where
  "remove_folds ps s [] page0 = Inr s"
| "remove_folds ps s (fold0 # folds) page0 =
     (case ha_remove_all_nodes_to_page ps s fold0 page0 of
        Inl e \<Rightarrow> Inl e
      | Inr s1 \<Rightarrow> remove_folds ps s1 folds page0)"

text \<open>
  \<^verbatim>\<open>btr_search_lazy_free(index)\<close> frees the index object and, with the last index
  of a dropped table, the table object. The dictionary memory is not modelled; the
  state records which indexes were handed to the function.
\<close>

definition btr_search_lazy_free :: "world \<Rightarrow> nat \<Rightarrow> world" where
  "btr_search_lazy_free w ix = w\<lparr>lazy_freed := ix # lazy_freed w\<rparr>"

text \<open>
  \<^verbatim>\<open>btr_search_drop_page_hash_index(block, garbage_collect)\<close>. Between its latch
  acquisitions no other thread runs in the model, so the two \<^verbatim>\<open>goto retry\<close> (the block
  changed its index or its signature meanwhile) and the \<^verbatim>\<open>goto cleanup\<close> (somebody
  else dropped the hash index meanwhile) are not taken. \<^verbatim>\<open>ut_a\<close> and \<^verbatim>\<open>ut_error\<close>
  stop the model.
\<close>

definition btr_search_drop_page_hash_index :: "world \<Rightarrow> nat \<Rightarrow> bool \<Rightarrow> error + world" where
  "btr_search_drop_page_hash_index w block garbage_collect =
     (let b = buf_pool w block
      in case index b of
           None \<Rightarrow> Inr w
         | Some ix \<Rightarrow>
             let index_id = page_index_id (frame b);
                 is_freed = freed (dict w ix)
             in if \<not> is_freed \<and> garbage_collect then Inr w
                else if \<not> enabled (btr_search w) then Inr w
                else if index_id \<noteq> id_v (dict w ix) then Inl Crash
                else
                  let nf = curr_n_fields b;
                      nb = curr_n_bytes b
                  in if \<not> (nf > 0 \<or> nb > 0) then Inl Crash
                     else if page_get_n_recs (frame b) = 0 then Inr w
                     else
                       let folds = drop_folds (\<lambda>rec. rec_fold_at w rec ix nf nb) (frame b)
                       in case remove_folds (srv_page_size w) (btr_search w) folds block of
                            Inl e \<Rightarrow> Inl e
                          | Inr s \<Rightarrow>
                              let info = search_info (dict w ix)
                              in if ref_count info = 0 then Inl Crash
                                 else
                                   let w1 = w\<lparr>btr_search := s,
                                               dict := (dict w)(ix := (dict w ix)
                                                 \<lparr>search_info := info\<lparr>ref_count := ref_count info - 1\<rparr>\<rparr>)\<rparr>;
                                       w2 = (if ref_count info = 1 \<and> freed (dict w1 ix)
                                             then btr_search_lazy_free w1 ix else w1)
                                   in Inr (w2\<lparr>buf_pool := (buf_pool w2)(block :=
                                                (buf_pool w2 block)\<lparr>index := None\<rparr>)\<rparr>))"

subsection \<open>Maintaining the hash index on insert\<close>






subsection \<open>The hash lookup\<close>


text \<open>
  The search modes \<^verbatim>\<open>PAGE_CUR_G\<close>, \<^verbatim>\<open>PAGE_CUR_GE\<close>, \<^verbatim>\<open>PAGE_CUR_L\<close>,
  \<^verbatim>\<open>PAGE_CUR_LE\<close>; \<open>PAGE_CUR_OTHER\<close> stands for any other value of the parameter
  \<^verbatim>\<open>mode\<close>.
\<close>

datatype page_cur_mode = PAGE_CUR_G | PAGE_CUR_GE | PAGE_CUR_L | PAGE_CUR_LE | PAGE_CUR_OTHER









text \<open>The label \<^verbatim>\<open>fail\<close> of \<^verbatim>\<open>btr_search_guess_on_hash\<close>.\<close>

definition guess_fail :: "world \<Rightarrow> nat \<Rightarrow> btr_cur \<Rightarrow> bool \<times> btr_cur \<times> world" where
  "guess_fail w ix cursor =
     (False, cursor\<lparr>flag := BTR_CUR_HASH_FAIL\<rparr>,
      w\<lparr>dict := (dict w)(ix := (dict w ix)
           \<lparr>search_info := (search_info (dict w ix))\<lparr>last_hash_succ := False\<rparr>\<rparr>)\<rparr>)"




subsection \<open>The potential counter over the life of an index\<close>


subsection \<open>An index with one hashed page\<close>

text \<open>
  A state with one index (at address 1, identifier 7, one key field of one byte) and one
  leaf page of it in the block at 16384, holding the records at 16500 and 16600, both
  with the key byte \<open>a\<close>. The page is hashed on one field; the hash table has one cell
  and one node, for the record at 16500.
\<close>

definition ex_key_index :: "bool \<Rightarrow> dict_index" where
  "ex_key_index left =
     \<lparr>id_v = 7, n_uniq_in_tree = 1, is_ibuf = False, freed = False, not_redundant = True,
      fields_v = [\<lparr>fixed_len = 1, is_nullable = False, big_col = False\<rparr>],
      search_info = \<lparr>ref_count = 1, hash_analysis = 0, last_hash_succ = True,
        n_hash_potential = 100, n_fields = 1, n_bytes = 0, left_side = left\<rparr>\<rparr>"

definition ex_key_rec :: rec_image where
  "ex_key_rec = \<lparr>data = (\<lambda>k. 0x61), null_bytes = (\<lambda>k. 0), len_bytes = (\<lambda>k. 0),
     short_offs = False, end_info_1 = (\<lambda>n. 0), end_info_2 = (\<lambda>n. 0)\<rparr>"

definition ex_key_fold :: "32 word" where
  "ex_key_fold = my_crc32c 7 [0x61]"

definition ex_key_block :: "bool \<Rightarrow> buf_block" where
  "ex_key_block left =
     \<lparr>frame = \<lparr>n_recs = 2, page_index_id = 7, is_leaf = True, has_prev = False,
        has_next = False, infimum = 16483, supremum = 16496, user_recs = [16500, 16600],
        rec_metadata = (\<lambda>r. False), rec_status = (\<lambda>r. REC_STATUS_ORDINARY)\<rparr>,
      state_ok = True, n_hash_helps = 0, n_fields = 1, n_bytes = 0, left_side = left,
      curr_n_fields = 1, curr_n_bytes = 0, curr_left_side = left, index = Some 1\<rparr>"

definition ex_key_table :: btr_sea where
  "ex_key_table =
     \<lparr>enabled = True, n_cells = 1, cells = (\<lambda>c. if c = 0 then [(32768, 0)] else []),
      nodes = (\<lambda>p. \<lparr>fold_n = ex_key_fold, rec_n = 16500\<rparr>),
      blocks = [\<lparr>slab_frame = 32768, free_offset = 24\<rparr>], spare = None\<rparr>"

definition ex_world :: "bool \<Rightarrow> world" where
  "ex_world left =
     \<lparr>btr_search = ex_key_table, srv_page_size = 16384,
      buf_pool = (\<lambda>b. ex_key_block left), dict = (\<lambda>ix. ex_key_index left),
      rec_mem = (\<lambda>r. ex_key_rec), lazy_freed = []\<rparr>"


subsection \<open>Example lookups and descents\<close>









subsection \<open>Example inputs\<close>

definition ex_info :: "nat \<Rightarrow> ahi" where
  "ex_info potential = \<lparr>ref_count = 0, hash_analysis = 17, last_hash_succ = True,
     n_hash_potential = potential, n_fields = 1, n_bytes = 0, left_side = True\<rparr>"

definition ex_index :: "nat \<Rightarrow> dict_index" where
  "ex_index potential = \<lparr>id_v = 7, n_uniq_in_tree = 5, is_ibuf = False, freed = False,
     not_redundant = True, fields_v = [], search_info = ex_info potential\<rparr>"

definition ex_cursor :: "nat \<Rightarrow> nat \<Rightarrow> nat \<Rightarrow> nat \<Rightarrow> btr_cur" where
  "ex_cursor um ub lm lb = \<lparr>index_p = 0, block_p = 0, rec_p = 0, flag = BTR_CUR_BINARY,
     up_match = um, up_bytes = ub, low_match = lm, low_bytes = lb,
     n_fields = 0, n_bytes = 0, fold_v = 0\<rparr>"

definition ex_page :: "nat list \<Rightarrow> page" where
  "ex_page rs = \<lparr>n_recs = length rs, page_index_id = 7, is_leaf = True,
     has_prev = False, has_next = False, infimum = 16384 + 99, supremum = 16384 + 112,
     user_recs = rs, rec_metadata = (\<lambda>r. False),
     rec_status = (\<lambda>r. REC_STATUS_ORDINARY)\<rparr>"

definition ex_block :: "nat list \<Rightarrow> nat \<Rightarrow> nat option \<Rightarrow> buf_block" where
  "ex_block rs helps ix = \<lparr>frame = ex_page rs, state_ok = True,
     n_hash_helps = helps, n_fields = 1, n_bytes = 0, left_side = True,
     curr_n_fields = 1, curr_n_bytes = 0, curr_left_side = True, index = ix\<rparr>"

text \<open>
  A record in the redundant format with the two fields \<open>a\<close> and \<open>bcd\<close>, one-byte
  offsets, no NULL field; the tuple with the same two fields; a cursor with the
  signature of one complete field and two bytes of the next.
\<close>

definition ex_old_index :: dict_index where
  "ex_old_index = \<lparr>id_v = 7, n_uniq_in_tree = 2, is_ibuf = False, freed = False,
     not_redundant = False,
     fields_v = [\<lparr>fixed_len = 0, is_nullable = False, big_col = False\<rparr>,
                 \<lparr>fixed_len = 0, is_nullable = False, big_col = False\<rparr>],
     search_info = ex_info 1\<rparr>"

definition ex_old_rec :: rec_image where
  "ex_old_rec = \<lparr>data = (\<lambda>k. if k = 0 then 0x61 else if k = 1 then 0x62
                              else if k = 2 then 0x63 else if k = 3 then 0x64 else 0),
     null_bytes = (\<lambda>k. 0), len_bytes = (\<lambda>k. 0), short_offs = True,
     end_info_1 = (\<lambda>n. if n = 0 then 1 else 4), end_info_2 = (\<lambda>n. 0)\<rparr>"

definition ex_tuple :: "dfield list" where
  "ex_tuple = [Data [0x61], Data [0x62, 0x63, 0x64]]"

definition ex_hash_cursor :: "nat \<Rightarrow> nat \<Rightarrow> btr_cur" where
  "ex_hash_cursor nf nb = \<lparr>index_p = 0, block_p = 0, rec_p = 0, flag = BTR_CUR_BINARY,
     up_match = 0, up_bytes = 0, low_match = 0, low_bytes = 0,
     n_fields = nf, n_bytes = nb, fold_v = 0\<rparr>"

section \<open>Properties\<close>

subsection \<open>The reset of the recommendation\<close>

lemma ut_pair_cmp_sign:
  "(ut_pair_cmp a b c d = 0) = (a = c \<and> b = d)"
  "(ut_pair_cmp a b c d > 0) = (a > c \<or> (a = c \<and> b > d))"
  "(ut_pair_cmp a b c d < 0) = (a < c \<or> (a = c \<and> b < d))"
  by (auto simp: ut_pair_cmp_def)

text \<open>
  C4. Whenever the heuristic sets a new recommendation after a descent with the match
  pairs \<open>(low_match, low_bytes)\<close> and \<open>(up_match, up_bytes)\<close>, \<open>left_side\<close> becomes
  \<open>up \<ge> low\<close> and \<open>n_hash_potential\<close> becomes \<open>up \<noteq> low\<close> (1 or 0), in the
  lexicographic order of the pairs. If \<open>up = low\<close> the new signature is \<open>(1, 0)\<close>; if
  \<open>up > low\<close> it is \<open>(n_unique, 0)\<close> when \<open>up_match \<ge> n_unique\<close>, else
  \<open>(low_match + 1, 0)\<close> when \<open>low_match < up_match\<close>, else \<open>(low_match, low_bytes + 1)\<close>;
  and the same with the two sides exchanged if \<open>up < low\<close>. The byte counts of the
  cursor are taken to fit the 16-bit fields of the signature they are stored into.
\<close>

theorem set_new_recomm_signature:
  fixes cursor :: btr_cur and ix :: dict_index and info :: ahi
  assumes "up_bytes cursor < 2 ^ 16" and "low_bytes cursor < 2 ^ 16"
  shows
  "(let n_unique = dict_index_get_n_unique_in_tree ix;
        info' = set_new_recomm cursor n_unique info;
        up_eq_low = (up_match cursor = low_match cursor \<and> up_bytes cursor = low_bytes cursor);
        up_gt_low = (up_match cursor > low_match cursor
                     \<or> (up_match cursor = low_match cursor \<and> up_bytes cursor > low_bytes cursor));
        up_lt_low = (up_match cursor < low_match cursor
                     \<or> (up_match cursor = low_match cursor \<and> up_bytes cursor < low_bytes cursor));
        sig = (ahi.n_fields info', ahi.n_bytes info')
    in ahi.left_side info' = (up_gt_low \<or> up_eq_low)
       \<and> n_hash_potential info' = (if up_eq_low then 0 else 1)
       \<and> (up_eq_low \<longrightarrow> sig = (1, 0))
       \<and> (up_gt_low \<longrightarrow>
            sig = (if up_match cursor \<ge> n_unique then (n_unique, 0)
                   else if low_match cursor < up_match cursor then (low_match cursor + 1, 0)
                   else (low_match cursor, low_bytes cursor + 1)))
       \<and> (up_lt_low \<longrightarrow>
            sig = (if low_match cursor \<ge> n_unique then (n_unique, 0)
                   else if up_match cursor < low_match cursor then (up_match cursor + 1, 0)
                   else (up_match cursor, up_bytes cursor + 1))))"
proof -
  have nu: "dict_index_get_n_unique_in_tree ix < 2 ^ 16"
    by (simp add: dict_index_get_n_unique_in_tree_def)
  show ?thesis
    using assms nu
    by (auto simp: Let_def set_new_recomm_def hash_analysis_reset_def ut_pair_cmp_def)
qed

theorem set_new_recomm_signature_witness:
  "up_bytes (ex_cursor 2 3 2 1) < 2 ^ 16 \<and> low_bytes (ex_cursor 2 3 2 1) < 2 ^ 16
   \<and> ahi.left_side (set_new_recomm (ex_cursor 2 3 2 1) 5 (ex_info 0))
   \<and> n_hash_potential (set_new_recomm (ex_cursor 2 3 2 1) 5 (ex_info 0)) = 1
   \<and> ahi.n_fields (set_new_recomm (ex_cursor 2 3 2 1) 5 (ex_info 0)) = 2
   \<and> ahi.n_bytes (set_new_recomm (ex_cursor 2 3 2 1) 5 (ex_info 0)) = 2"
  using set_new_recomm_signature [of "ex_cursor 2 3 2 1" "ex_index 0" "ex_info 0"]
  by (simp add: ex_cursor_def ex_index_def dict_index_get_n_unique_in_tree_def Let_def)

text \<open>
  The heuristic takes the reset exactly when the counter is zero or the recommendation
  failed one of the two comparisons; this ties \<open>set_new_recomm\<close> to the function.
\<close>

lemma btr_search_info_update_hash_reset:
  assumes "\<not> is_ibuf ix" and "n_hash_potential (search_info ix) = 0"
  shows "search_info (btr_search_info_update_hash cursor ix)
         = set_new_recomm cursor (dict_index_get_n_unique_in_tree ix) (search_info ix)"
  using assms by (simp add: btr_search_info_update_hash_def Let_def)

subsection \<open>The build recommendation of a block\<close>

lemma block_hash_info_count_fields:
  assumes "block_hash_info_count info block = (info', block')"
  shows "n_hash_potential info' = n_hash_potential info"
    and "frame block' = frame block" and "index block' = index block"
    and "curr_n_fields block' = curr_n_fields block"
    and "curr_n_bytes block' = curr_n_bytes block"
    and "curr_left_side block' = curr_left_side block"
    and "buf_block.n_fields block' = ahi.n_fields info"
    and "buf_block.n_bytes block' = ahi.n_bytes info"
    and "buf_block.left_side block' = ahi.left_side info"
    and "n_hash_helps block'
           = (if n_hash_helps block > 0 \<and> n_hash_potential info > 0
                 \<and> buf_block.n_fields block = ahi.n_fields info
                 \<and> buf_block.n_bytes block = ahi.n_bytes info
                 \<and> buf_block.left_side block = ahi.left_side info
              then n_hash_helps block + 1 else 1)"
  using assms
  by (auto simp: block_hash_info_count_def Let_def split: if_splits)

text \<open>
  C5. \<^verbatim>\<open>btr_search_update_block_hash_info\<close> returns true exactly when the block's counter
  \<open>n_hash_helps\<close> (as updated by this call) exceeds the page's record count divided by 16
  and the index's \<open>n_hash_potential\<close> is at least 100, and in addition the block has no
  hash index, or the signature it is hashed with differs from its candidate signature,
  or \<open>n_hash_helps\<close> exceeds twice the record count. The call leaves the potential, the
  page, the owning index and the built signature as they were; the candidate signature
  after the call is the index's recommendation.
\<close>

theorem build_recommended_iff:
  assumes "btr_search_update_block_hash_info info block = (r, info', block')"
  shows "r = (n_hash_helps block' > page_get_n_recs (frame block') div 16
              \<and> n_hash_potential info' \<ge> 100
              \<and> (index block' = None
                 \<or> (curr_n_fields block', curr_n_bytes block', curr_left_side block')
                    \<noteq> (buf_block.n_fields block', buf_block.n_bytes block', buf_block.left_side block')
                 \<or> n_hash_helps block' > 2 * page_get_n_recs (frame block')))
         \<and> n_hash_potential info' = n_hash_potential info
         \<and> frame block' = frame block \<and> index block' = index block
         \<and> (curr_n_fields block', curr_n_bytes block', curr_left_side block')
           = (curr_n_fields block, curr_n_bytes block, curr_left_side block)
         \<and> (buf_block.n_fields block', buf_block.n_bytes block', buf_block.left_side block')
           = (ahi.n_fields info, ahi.n_bytes info, ahi.left_side info)
         \<and> n_hash_helps block'
           = (if n_hash_helps block > 0 \<and> n_hash_potential info > 0
                 \<and> (buf_block.n_fields block, buf_block.n_bytes block, buf_block.left_side block)
                   = (ahi.n_fields info, ahi.n_bytes info, ahi.left_side info)
              then n_hash_helps block + 1 else 1)"
proof -
  obtain i b where ib: "block_hash_info_count info block = (i, b)"
    by (cases "block_hash_info_count info block")
  from assms ib have eq: "info' = i" "block' = b"
    by (auto simp: btr_search_update_block_hash_info_def split: if_splits)
  from assms ib have r: "r = (n_hash_helps b > page_get_n_recs (frame b) div 16
              \<and> n_hash_potential i \<ge> 100
              \<and> (index b = None
                 \<or> (curr_n_fields b, curr_n_bytes b, curr_left_side b)
                    \<noteq> (buf_block.n_fields b, buf_block.n_bytes b, buf_block.left_side b)
                 \<or> n_hash_helps b > 2 * page_get_n_recs (frame b)))"
    by (auto simp: btr_search_update_block_hash_info_def
        BTR_SEARCH_PAGE_BUILD_LIMIT_def BTR_SEARCH_BUILD_LIMIT_def split: if_splits)
  show ?thesis
    using r block_hash_info_count_fields [OF ib] unfolding eq by simp
qed

lemma ex_block_hash_info:
  "btr_search_update_block_hash_info (ex_info 100) (ex_block [1 ..< 33] 2 None)
   = (True, (ex_info 100)\<lparr>last_hash_succ := False\<rparr>,
      (ex_block [1 ..< 33] 2 None)\<lparr>n_hash_helps := 3\<rparr>)"
  by (simp add: btr_search_update_block_hash_info_def block_hash_info_count_def
      ex_info_def ex_block_def ex_page_def page_get_n_recs_def
      BTR_SEARCH_PAGE_BUILD_LIMIT_def BTR_SEARCH_BUILD_LIMIT_def)

theorem build_recommended_iff_witness:
  "btr_search_update_block_hash_info (ex_info 100) (ex_block [1 ..< 33] 2 None)
   = (True, (ex_info 100)\<lparr>last_hash_succ := False\<rparr>,
      (ex_block [1 ..< 33] 2 None)\<lparr>n_hash_helps := 3\<rparr>)
   \<and> page_get_n_recs (frame (ex_block [1 ..< 33] 2 None)) div 16 = 2
   \<and> n_hash_potential (ex_info 100) = 100"
  using build_recommended_iff [OF ex_block_hash_info] ex_block_hash_info
  by (simp add: ex_info_def ex_block_def ex_page_def page_get_n_recs_def)

subsection \<open>The fold of a record and of a tuple\<close>

lemma my_crc32c_append: "my_crc32c (my_crc32c c xs) ys = my_crc32c c (xs @ ys)"
  by (simp add: my_crc32c_def)

lemma rec_fold_n_old:
  assumes "\<not> not_redundant ix" and "short_offs r" and "nf \<noteq> 0" and "nb \<noteq> 0"
  shows "rec_fold_n r ix nf nb =
         size_add (end_info_1 r nf)
           (size_sub (min nb (size_sub (end_info_1 r nf)
                               (size_sub (end_info_1 r nf) (end_info_1 r (nf - 1)))))
                     (size_sub (end_info_1 r nf) (end_info_1 r (nf - 1))))"
  using assms by (simp only: rec_fold_n_def Let_def if_False if_True refl) simp

lemma ex_old_matches: "tuple_matches_old ex_tuple ex_old_rec 1 2"
  by (simp add: tuple_matches_old_def ex_tuple_def old_field_def ex_old_rec_def upt_rec)

lemma ex_old_rec_fold_n: "rec_fold_n ex_old_rec ex_old_index 1 2 = 2"
proof -
  have "\<not> not_redundant ex_old_index" "short_offs ex_old_rec"
    by (simp_all add: ex_old_index_def ex_old_rec_def)
  then have "rec_fold_n ex_old_rec ex_old_index 1 2 =
         size_add (end_info_1 ex_old_rec 1)
           (size_sub (min 2 (size_sub (end_info_1 ex_old_rec 1)
                               (size_sub (end_info_1 ex_old_rec 1) (end_info_1 ex_old_rec (1 - 1)))))
                     (size_sub (end_info_1 ex_old_rec 1) (end_info_1 ex_old_rec (1 - 1))))"
    by (rule rec_fold_n_old) simp_all
  also have "\<dots> = 2"
    by (simp add: ex_old_rec_def size_add_def size_sub_def)
  finally show ?thesis .
qed

lemma ex_old_rec_fold: "rec_fold ex_old_rec ex_old_index 1 2 = my_crc32c 7 [0x61, 0x62]"
proof -
  have "fold_seed ex_old_index = 7"
    by (simp add: fold_seed_def ut_fold_ull_def ex_old_index_def)
  moreover have "map (data ex_old_rec) [0 ..< 2] = [0x61, 0x62]"
    by (simp add: ex_old_rec_def upt_rec)
  ultimately show ?thesis
    by (simp only: rec_fold_def ex_old_rec_fold_n)
qed

lemma ex_old_dtuple_fold:
  "dtuple_fold ex_old_index ex_tuple (ex_hash_cursor 1 2) = Some (my_crc32c 7 [0x61, 0x62, 0x63])"
proof -
  have "fold_seed ex_old_index = 7"
    by (simp add: fold_seed_def ut_fold_ull_def ex_old_index_def)
  then show ?thesis
    by (simp add: dtuple_fold_def ex_tuple_def ex_hash_cursor_def
        dfield_bytes_def my_crc32c_append)
qed

lemma ex_crc_ab: "my_crc32c 7 [0x61, 0x62] = 2563760243"
  by code_simp

lemma ex_crc_abc: "my_crc32c 7 [0x61, 0x62, 0x63] = 1119575006"
proof -
  have "my_crc32c 2563760243 [0x63] = 1119575006" by code_simp
  then show ?thesis
    using my_crc32c_append [of 7 "[0x61, 0x62]" "[0x63]"] by (simp add: ex_crc_ab)
qed

text \<open>
  C2. The fold of a record and the fold of a tuple that matches the record on the first
  \<open>n_fields\<close> complete fields and the first \<open>n_bytes\<close> bytes of the next field should be
  equal. In the redundant row format, with \<open>n_fields > 0\<close> and \<open>n_bytes > 0\<close>,
  \<^verbatim>\<open>rec_fold\<close> adds \<^verbatim>\<open>std::min(n_bytes, n - len)\<close> bytes of the incomplete field, the
  minimum with the offset at which the field starts instead of with its length. For the
  record with the fields \<open>a\<close> and \<open>bcd\<close>, one complete field and two bytes, it hashes the
  two bytes \<open>ab\<close>, and \<^verbatim>\<open>dtuple_fold\<close> hashes the three bytes \<open>abc\<close> of the matching
  tuple: the two folds differ.
\<close>

theorem rec_fold_old_partial_field_differs:
  "tuple_matches_old ex_tuple ex_old_rec 1 2
   \<and> rec_fold_n ex_old_rec ex_old_index 1 2 = 2
   \<and> rec_fold ex_old_rec ex_old_index 1 2 = 2563760243
   \<and> dtuple_fold ex_old_index ex_tuple (ex_hash_cursor 1 2) = Some 1119575006"
proof (intro conjI)
  show "tuple_matches_old ex_tuple ex_old_rec 1 2"
    by (rule ex_old_matches)
  show "rec_fold_n ex_old_rec ex_old_index 1 2 = 2"
    by (rule ex_old_rec_fold_n)
  show "rec_fold ex_old_rec ex_old_index 1 2 = 2563760243"
    by (simp only: ex_old_rec_fold ex_crc_ab)
  show "dtuple_fold ex_old_index ex_tuple (ex_hash_cursor 1 2) = Some 1119575006"
    by (simp only: ex_old_dtuple_fold ex_crc_abc)
qed

subsection \<open>The per-page build: caching the entries\<close>

text \<open>
  \<open>fold_runs\<close> splits a list into its maximal runs: the runs concatenate to the list,
  none is empty, the fold is constant on each.
\<close>

lemma fold_runs_nonempty: "xs \<noteq> [] \<Longrightarrow> fold_runs f xs \<noteq> []"
  by (induction f xs rule: fold_runs.induct) (auto split: list.splits)

lemma fold_runs_concat: "concat (fold_runs f xs) = xs"
  by (induction f xs rule: fold_runs.induct) (auto split: list.splits)

lemma fold_runs_no_empty: "[] \<notin> set (fold_runs f xs)"
  by (induction f xs rule: fold_runs.induct) (auto split: list.splits)

lemma fold_runs_hd: "fold_runs f (x # xs) = run # runs \<Longrightarrow> hd run = x"
  by (induction f "x # xs" arbitrary: x xs run runs rule: fold_runs.induct)
     (auto split: list.splits if_splits)

lemma fold_runs_constant:
  "run \<in> set (fold_runs f xs) \<Longrightarrow> v \<in> set run \<Longrightarrow> f v = f (hd run)"
proof (induction f xs arbitrary: run v rule: fold_runs.induct)
  case (1 f)
  then show ?case by simp
next
  case (2 f x)
  then show ?case by simp
next
  case (3 f x y zs)
  show ?case
  proof (cases "f x = f y")
    case True
    obtain r rs where rr: "fold_runs f (y # zs) = r # rs"
      using fold_runs_nonempty [of "y # zs" f] by (cases "fold_runs f (y # zs)") auto
    have hd: "hd r = y" using fold_runs_hd [OF rr] .
    from 3(3) True rr have "run = x # r \<or> run \<in> set rs" by simp
    then show ?thesis
    proof
      assume run: "run = x # r"
      with 3(4) have "v = x \<or> v \<in> set r" by simp
      then show ?thesis
      proof
        assume "v = x" with run show ?thesis by simp
      next
        assume "v \<in> set r"
        moreover have "r \<in> set (fold_runs f (y # zs))" using rr by simp
        ultimately have "f v = f (hd r)" using 3(1) [OF True] by blast
        with hd True run show ?thesis by simp
      qed
    next
      assume "run \<in> set rs"
      then have "run \<in> set (fold_runs f (y # zs))" using rr by simp
      with 3(1) [OF True] 3(4) show ?thesis by blast
    qed
  next
    case False
    from 3(3) False have "run = [x] \<or> run \<in> set (fold_runs f (y # zs))" by simp
    then show ?thesis
    proof
      assume "run = [x]" with 3(4) show ?thesis by simp
    next
      assume "run \<in> set (fold_runs f (y # zs))"
      with 3(2) [OF False] 3(4) show ?thesis by blast
    qed
  qed
qed

text \<open>The runs are maximal: two neighbouring runs differ in fold where they meet.\<close>

lemma fold_runs_maximal:
  "fold_runs f xs = pre @ r1 # r2 # post \<Longrightarrow> f (last r1) \<noteq> f (hd r2)"
proof (induction f xs arbitrary: pre r1 r2 post rule: fold_runs.induct)
  case (3 f x y zs)
  show ?case
  proof (cases "f x = f y")
    case True
    obtain run runs where rr: "fold_runs f (y # zs) = run # runs"
      using fold_runs_nonempty [of "y # zs" f] by (cases "fold_runs f (y # zs)") auto
    have hd: "hd run = y" using fold_runs_hd [OF rr] .
    have ne: "run \<noteq> []" using fold_runs_no_empty [of f "y # zs"] rr by auto
    from 3(3) True rr have eq: "(x # run) # runs = pre @ r1 # r2 # post" by simp
    show ?thesis
    proof (cases pre)
      case Nil
      with eq have "r1 = x # run" "runs = r2 # post" by auto
      with rr have "fold_runs f (y # zs) = [] @ run # r2 # post" by simp
      from 3(1) [OF True this] have "f (last run) \<noteq> f (hd r2)" .
      with \<open>r1 = x # run\<close> ne show ?thesis by simp
    next
      case (Cons p pre')
      with eq have "runs = pre' @ r1 # r2 # post" by auto
      with rr have "fold_runs f (y # zs) = (run # pre') @ r1 # r2 # post" by simp
      from 3(1) [OF True this] show ?thesis .
    qed
  next
    case False
    from 3(3) False have eq: "[x] # fold_runs f (y # zs) = pre @ r1 # r2 # post" by simp
    show ?thesis
    proof (cases pre)
      case Nil
      with eq have r1: "r1 = [x]" and "fold_runs f (y # zs) = r2 # post" by auto
      then have "hd r2 = y" using fold_runs_hd by metis
      with r1 False show ?thesis by simp
    next
      case (Cons p pre')
      with eq have "fold_runs f (y # zs) = pre' @ r1 # r2 # post" by auto
      from 3(2) [OF False this] show ?thesis .
    qed
  qed
qed auto





subsection \<open>Well-formed tables\<close>

lemma block_nodes_frame: "p \<in> block_nodes b \<Longrightarrow> fst p = slab_frame b"
  by (auto simp: block_nodes_def)

lemma block_nodes_image:
  assumes "free_offset b = m * 24"
  shows "block_nodes b = (\<lambda>k. (slab_frame b, k * 24)) ` {..<m}"
  unfolding block_nodes_def sizeof_ahi_node_def assms by auto

lemma block_nodes_grow:
  assumes "sizeof_ahi_node dvd free_offset b"
  shows "block_nodes (b\<lparr>free_offset := free_offset b + sizeof_ahi_node\<rparr>)
         = insert (slab_frame b, free_offset b) (block_nodes b)"
proof -
  obtain m where m: "free_offset b = m * 24"
    using assms by (auto simp: dvd_def mult.commute sizeof_ahi_node_def)
  have "free_offset (b\<lparr>free_offset := free_offset b + sizeof_ahi_node\<rparr>) = Suc m * 24"
    by (simp add: m sizeof_ahi_node_def)
  from block_nodes_image [OF this] block_nodes_image [OF m]
  show ?thesis by (simp add: lessThan_Suc m)
qed

lemma block_nodes_first:
  "block_nodes \<lparr>slab_frame = f, free_offset = sizeof_ahi_node\<rparr> = {(f, 0)}"
proof -
  have "free_offset \<lparr>slab_frame = f, free_offset = sizeof_ahi_node\<rparr> = Suc 0 * 24"
    by (simp add: sizeof_ahi_node_def)
  from block_nodes_image [OF this] show ?thesis by (simp add: lessThan_Suc)
qed

lemma block_nodes_top:
  assumes "sizeof_ahi_node dvd free_offset b" and "free_offset b > 0"
  shows "(slab_frame b, free_offset b - sizeof_ahi_node) \<in> block_nodes b"
    and "block_nodes (b\<lparr>free_offset := free_offset b - sizeof_ahi_node\<rparr>)
         = block_nodes b - {(slab_frame b, free_offset b - sizeof_ahi_node)}"
    and "free_offset b \<ge> sizeof_ahi_node"
    and "sizeof_ahi_node dvd free_offset b - sizeof_ahi_node"
proof -
  obtain m where m: "free_offset b = m * 24"
    using assms by (auto simp: dvd_def mult.commute sizeof_ahi_node_def)
  from assms(2) m obtain m' where m': "m = Suc m'" by (cases m) auto
  have fo: "free_offset b - sizeof_ahi_node = m' * 24"
    by (simp add: m m' sizeof_ahi_node_def)
  have big: "block_nodes b = insert (slab_frame b, m' * 24) ((\<lambda>k. (slab_frame b, k * 24)) ` {..<m'})"
    using block_nodes_image [OF m] by (simp add: m' lessThan_Suc)
  have "free_offset (b\<lparr>free_offset := free_offset b - sizeof_ahi_node\<rparr>) = m' * 24"
    by (simp add: fo)
  from block_nodes_image [OF this]
  have small: "block_nodes (b\<lparr>free_offset := free_offset b - sizeof_ahi_node\<rparr>)
               = (\<lambda>k. (slab_frame b, k * 24)) ` {..<m'}"
    by simp
  have notin: "(slab_frame b, m' * 24) \<notin> (\<lambda>k. (slab_frame b, k * 24)) ` {..<m'}"
    by auto
  show "(slab_frame b, free_offset b - sizeof_ahi_node) \<in> block_nodes b"
    unfolding fo big by simp
  show "free_offset b \<ge> sizeof_ahi_node" by (simp add: m m' sizeof_ahi_node_def)
  show "sizeof_ahi_node dvd free_offset b - sizeof_ahi_node"
    unfolding fo by (simp add: sizeof_ahi_node_def)
  show "block_nodes (b\<lparr>free_offset := free_offset b - sizeof_ahi_node\<rparr>)
         = block_nodes b - {(slab_frame b, free_offset b - sizeof_ahi_node)}"
  proof -
    have "(\<lambda>k. (slab_frame b, k * 24)) ` {..<m'} = block_nodes b - {(slab_frame b, m' * 24)}"
      unfolding big using notin by blast
    with small show ?thesis by (simp only: fo)
  qed
qed

subsection \<open>Insertion keeps the table well formed\<close>

lemma allocated_frame: "p \<in> allocated s \<Longrightarrow> fst p \<in> slab_frame ` set (blocks s)"
  by (auto simp: allocated_def dest: block_nodes_frame)

lemma allocated_blocks_cong: "blocks s' = blocks s \<Longrightarrow> allocated s' = allocated s"
  by (simp add: allocated_def)

lemma slab_wf_cong:
  "blocks s' = blocks s \<Longrightarrow> spare s' = spare s \<Longrightarrow> slab_wf s' = slab_wf s"
  by (auto simp: slab_wf_def split: option.splits)

lemma last_frame_notin_butlast:
  assumes "distinct (map slab_frame bs)" and "bs \<noteq> []"
  shows "slab_frame (last bs) \<notin> slab_frame ` set (butlast bs)"
proof -
  from assms(2) have "bs = butlast bs @ [last bs]" by simp
  then have "distinct (map slab_frame (butlast bs @ [last bs]))"
    using assms(1) by simp
  then show ?thesis by auto
qed

lemma allocated_split:
  assumes "blocks s \<noteq> []"
  shows "allocated s = (\<Union>b \<in> set (butlast (blocks s)). block_nodes b) \<union> block_nodes (last (blocks s))"
proof -
  from assms have "blocks s = butlast (blocks s) @ [last (blocks s)]" by simp
  then have "set (blocks s) = set (butlast (blocks s)) \<union> {last (blocks s)}"
    by (metis list.simps(15) set_append empty_set)
  then show ?thesis by (auto simp: allocated_def)
qed

lemma butlast_nodes_frame:
  assumes "distinct (map slab_frame bs)" and "bs \<noteq> []"
  shows "(slab_frame (last bs), x) \<notin> (\<Union>b \<in> set (butlast bs). block_nodes b)"
  using last_frame_notin_butlast [OF assms] by (auto dest: block_nodes_frame)

lemma slab_alloc_frame:
  assumes "slab_alloc ps s = Some (node, s1)"
  shows "cells s1 = cells s" and "nodes s1 = nodes s" and "n_cells s1 = n_cells s"
    and "enabled s1 = enabled s"
  using assms by (auto simp: slab_alloc_def Let_def split: if_splits option.splits)

lemma slab_alloc_wf:
  assumes wf: "slab_wf s" and al: "slab_alloc ps s = Some (node, s1)"
  shows "slab_wf s1 \<and> allocated s1 = insert node (allocated s) \<and> node \<notin> allocated s"
proof (cases "blocks s \<noteq> [] \<and> free_offset (last (blocks s)) < ps - sizeof_ahi_node")
  case True
  define l where "l = last (blocks s)"
  define bs where "bs = butlast (blocks s)"
  define l' where "l' = l\<lparr>free_offset := free_offset l + sizeof_ahi_node\<rparr>"
  from True have bl: "blocks s = bs @ [l]" by (simp add: l_def bs_def)
  from al True have node: "node = (slab_frame l, free_offset l)"
    and s1: "s1 = s\<lparr>blocks := bs @ [l']\<rparr>"
    by (auto simp: slab_alloc_def Let_def l_def bs_def l'_def)
  from wf bl have dist: "distinct (map slab_frame (bs @ [l]))"
    and dv: "sizeof_ahi_node dvd free_offset l" and pos: "free_offset l > 0"
    and all: "list_all (\<lambda>b. free_offset b > 0 \<and> sizeof_ahi_node dvd free_offset b) bs"
    by (auto simp: slab_wf_def)
  have fr: "slab_frame l' = slab_frame l" by (simp add: l'_def)
  have grow: "block_nodes l' = insert node (block_nodes l)"
    unfolding l'_def node by (rule block_nodes_grow [OF dv])
  have A: "allocated s = (\<Union>b \<in> set bs. block_nodes b) \<union> block_nodes l"
    by (auto simp: allocated_def bl)
  have A1: "allocated s1 = (\<Union>b \<in> set bs. block_nodes b) \<union> block_nodes l'"
    by (auto simp: allocated_def s1)
  have n1: "node \<notin> (\<Union>b \<in> set bs. block_nodes b)"
    using dist unfolding node by (auto dest: block_nodes_frame)
  have n2: "node \<notin> block_nodes l"
    unfolding node block_nodes_def by auto
  have "slab_wf s1"
    using wf dist all dv pos unfolding slab_wf_def s1 bl
    by (auto simp: fr l'_def sizeof_ahi_node_def)
  moreover have "allocated s1 = insert node (allocated s)"
    unfolding A A1 grow by blast
  moreover have "node \<notin> allocated s"
    unfolding A using n1 n2 by blast
  ultimately show ?thesis by blast
next
  case False
  with al obtain b where sp: "spare s = Some b" and node: "node = (b, 0)"
    and s1: "s1 = s\<lparr>spare := None,
                    blocks := blocks s @ [\<lparr>slab_frame = b, free_offset = sizeof_ahi_node\<rparr>]\<rparr>"
    by (auto simp: slab_alloc_def Let_def split: option.splits if_splits)
  from wf sp have nb: "b \<notin> slab_frame ` set (blocks s)"
    by (auto simp: slab_wf_def)
  have "slab_wf s1"
    using wf nb unfolding slab_wf_def s1 by (auto simp: sizeof_ahi_node_def)
  moreover have "allocated s1 = insert node (allocated s)"
    unfolding allocated_def s1 node by (simp add: block_nodes_first)
  moreover have "node \<notin> allocated s"
    using nb allocated_frame [of node s] unfolding node by auto
  ultimately show ?thesis by blast
qed

lemma find_Some_set: "find P xs = Some x \<Longrightarrow> x \<in> set xs \<and> P x"
  by (induction xs) (auto split: if_splits)

lemma chains_wf_update_rec:
  assumes "chains_wf s A"
  shows "chains_wf (s\<lparr>nodes := (nodes s)(p := (nodes s p)\<lparr>rec_n := r\<rparr>)\<rparr>) A"
  using assms by (auto simp: chains_wf_def calc_hash_def)

lemma chains_wf_append:
  assumes wf: "chains_wf s A" and new: "node \<notin> A" and c: "c = calc_hash s fold0"
  shows "chains_wf (s\<lparr>nodes := (nodes s)(node := \<lparr>fold_n = fold0, rec_n = r\<rparr>),
                      cells := (cells s)(c := cells s c @ [node])\<rparr>) (insert node A)"
proof -
  let ?s = "s\<lparr>nodes := (nodes s)(node := \<lparr>fold_n = fold0, rec_n = r\<rparr>),
              cells := (cells s)(c := cells s c @ [node])\<rparr>"
  from wf have U: "(\<Union>c. set (cells s c)) = A" by (simp add: chains_wf_def)
  with new have nin: "node \<notin> set (cells s c')" for c' by blast
  have ch: "calc_hash ?s f = calc_hash s f" for f by (simp add: calc_hash_def)
  have "n_cells ?s > 0" using wf by (simp add: chains_wf_def)
  moreover have "distinct (cells ?s c')" for c'
    using wf nin by (auto simp: chains_wf_def)
  moreover have "set (cells ?s c1) \<inter> set (cells ?s c2) = {}" if "c1 \<noteq> c2" for c1 c2
  proof -
    from wf that have "set (cells s c1) \<inter> set (cells s c2) = {}" by (simp add: chains_wf_def)
    with nin [of c1] nin [of c2] that show ?thesis by (auto split: if_splits)
  qed
  moreover have "(\<Union>c. set (cells ?s c)) = insert node A"
  proof -
    have "(\<Union>c'. set (cells ?s c')) = insert node (\<Union>c'. set (cells s c'))"
      by (auto split: if_splits)
    with U show ?thesis by simp
  qed
  moreover have "calc_hash ?s (fold_n (nodes ?s p)) = c'" if "p \<in> set (cells ?s c')" for c' p
  proof (cases "p = node")
    case True
    with that nin [of c'] have "c' = c" by (auto split: if_splits)
    with True c show ?thesis by (simp add: calc_hash_def)
  next
    case False
    with that have "p \<in> set (cells s c')" by (auto split: if_splits)
    with wf have "calc_hash s (fold_n (nodes s p)) = c'" by (simp add: chains_wf_def)
    with False show ?thesis by (simp add: calc_hash_def)
  qed
  ultimately show ?thesis unfolding chains_wf_def by blast
qed

lemma partition_insert_wf:
  assumes "table_wf s"
  shows "table_wf (partition_insert ps s fold0 r)"
proof (cases "find (\<lambda>prev. fold_n (nodes s prev) = fold0) (cells s (calc_hash s fold0))")
  case (Some prev)
  then have eq: "partition_insert ps s fold0 r
                 = s\<lparr>nodes := (nodes s)(prev := (nodes s prev)\<lparr>rec_n := r\<rparr>)\<rparr>"
    by (simp add: partition_insert_def)
  show ?thesis
    unfolding eq table_wf_def
    using assms chains_wf_update_rec [of s "allocated s" prev r]
    by (simp add: table_wf_def slab_wf_def allocated_def)
next
  case None
  show ?thesis
  proof (cases "slab_alloc ps s")
    case N2: None
    with None have "partition_insert ps s fold0 r = s" by (simp add: partition_insert_def)
    with assms show ?thesis by simp
  next
    case (Some a)
    then obtain node s1 where al: "slab_alloc ps s = Some (node, s1)" by (cases a) auto
    from None al have eq: "partition_insert ps s fold0 r
        = s1\<lparr>nodes := (nodes s1)(node := \<lparr>fold_n = fold0, rec_n = r\<rparr>),
             cells := (cells s1)(calc_hash s fold0 := cells s1 (calc_hash s fold0) @ [node])\<rparr>"
      by (simp add: partition_insert_def Let_def)
    from assms have swf: "slab_wf s" and cwf: "chains_wf s (allocated s)"
      by (simp_all add: table_wf_def)
    from slab_alloc_wf [OF swf al] have swf1: "slab_wf s1"
      and A1: "allocated s1 = insert node (allocated s)" and new: "node \<notin> allocated s"
      by blast+
    note fr = slab_alloc_frame [OF al]
    have cwf1: "chains_wf s1 (allocated s)"
      using cwf fr by (simp add: chains_wf_def calc_hash_def)
    have c: "calc_hash s fold0 = calc_hash s1 fold0" using fr by (simp add: calc_hash_def)
    have "chains_wf (partition_insert ps s fold0 r) (insert node (allocated s))"
      unfolding eq by (rule chains_wf_append [OF cwf1 new c])
    moreover have "allocated (partition_insert ps s fold0 r) = allocated s1"
      unfolding eq by (simp add: allocated_def)
    moreover have "slab_wf (partition_insert ps s fold0 r)"
      unfolding eq using swf1 by (simp add: slab_wf_def)
    ultimately show ?thesis by (simp add: table_wf_def A1)
  qed
qed

subsection \<open>Moving the top node and shrinking the slab\<close>

lemma chains_wf_cong:
  assumes "cells s' = cells s" and "nodes s' = nodes s" and "n_cells s' = n_cells s"
  shows "chains_wf s' A = chains_wf s A"
  using assms by (simp add: chains_wf_def calc_hash_def)

lemma replace_first_Some:
  assumes "top_node \<in> set chain" and "distinct chain" and "erase \<notin> set chain"
  shows "\<exists>chain'. replace_first top_node erase chain = Some chain'
           \<and> set chain' = insert erase (set chain - {top_node}) \<and> distinct chain'"
  using assms
proof (induction chain)
  case Nil
  then show ?case by simp
next
  case (Cons p ps)
  show ?case
  proof (cases "p = top_node")
    case True
    with Cons.prems show ?thesis by auto
  next
    case False
    with Cons.prems have "top_node \<in> set ps" "distinct ps" "erase \<notin> set ps" by auto
    from Cons.IH [OF this] obtain chain' where
      c: "replace_first top_node erase ps = Some chain'"
         "set chain' = insert erase (set ps - {top_node})" "distinct chain'"
      by blast
    with False Cons.prems show ?thesis by auto
  qed
qed

lemma chains_wf_relink:
  assumes wf: "chains_wf s (A - {erase})" and e: "erase \<in> A" and t: "top_node \<in> A"
    and ne: "erase \<noteq> top_node"
  shows "\<exists>chain. replace_first top_node erase
                   (cells s (calc_hash s (fold_n (nodes s top_node)))) = Some chain
          \<and> chains_wf (s\<lparr>nodes := (nodes s)(erase := nodes s top_node),
                          cells := (cells s)(calc_hash s (fold_n (nodes s top_node)) := chain)\<rparr>)
               (A - {top_node})"
proof -
  define c where "c = calc_hash s (fold_n (nodes s top_node))"
  from wf have U: "(\<Union>c. set (cells s c)) = A - {erase}"
    and dist: "\<And>c. distinct (cells s c)"
    and disj: "\<And>c c'. c \<noteq> c' \<Longrightarrow> set (cells s c) \<inter> set (cells s c') = {}"
    and fold_ok: "\<And>c p. p \<in> set (cells s c) \<Longrightarrow> calc_hash s (fold_n (nodes s p)) = c"
    and n: "n_cells s > 0"
    by (auto simp: chains_wf_def)
  from U have enot: "erase \<notin> set (cells s c')" for c' by blast
  from U t ne obtain c0 where c0: "top_node \<in> set (cells s c0)" by blast
  with fold_ok have "c0 = c" by (auto simp: c_def)
  with c0 have tin: "top_node \<in> set (cells s c)" by simp
  have tnot: "top_node \<notin> set (cells s c')" if "c' \<noteq> c" for c'
    using disj [OF that] tin by blast
  from replace_first_Some [OF tin dist enot] obtain chain where
    rf: "replace_first top_node erase (cells s c) = Some chain"
    and sc: "set chain = insert erase (set (cells s c) - {top_node})"
    and dc: "distinct chain"
    by blast
  let ?s = "s\<lparr>nodes := (nodes s)(erase := nodes s top_node), cells := (cells s)(c := chain)\<rparr>"
  have cells': "cells ?s c' = (if c' = c then chain else cells s c')" for c' by simp
  have "n_cells ?s > 0" using n by simp
  moreover have "distinct (cells ?s c')" for c'
    using dist dc by (simp add: cells')
  moreover have "set (cells ?s c1) \<inter> set (cells ?s c2) = {}" if "c1 \<noteq> c2" for c1 c2
    using disj [OF that] enot [of c1] enot [of c2] that sc disj [of c1 c] disj [of c c2]
    by (auto simp: cells')
  moreover have "(\<Union>c'. set (cells ?s c')) = A - {top_node}"
  proof -
    have "(\<Union>c'. set (cells ?s c')) = insert erase ((\<Union>c'. set (cells s c')) - {top_node})"
      using sc tnot tin by (auto simp: cells' split: if_splits)
    with U e ne show ?thesis by auto
  qed
  moreover have "calc_hash ?s (fold_n (nodes ?s p)) = c'" if "p \<in> set (cells ?s c')" for c' p
  proof (cases "p = erase")
    case True
    with that enot [of c'] sc have "c' = c" by (auto simp: cells' split: if_splits)
    with True show ?thesis by (simp add: calc_hash_def c_def)
  next
    case False
    with that sc have "p \<in> set (cells s c')" by (auto simp: cells' split: if_splits)
    from fold_ok [OF this] False show ?thesis by (simp add: calc_hash_def)
  qed
  ultimately have "chains_wf ?s (A - {top_node})" unfolding chains_wf_def by blast
  with rf show ?thesis unfolding c_def by blast
qed

lemma slab_shrink:
  assumes wf: "slab_wf s" and ne: "blocks s \<noteq> []"
  shows "sizeof_ahi_node \<le> free_offset (last (blocks s))"
    and "(slab_frame (last (blocks s)), free_offset (last (blocks s)) - sizeof_ahi_node)
         \<in> allocated s"
    and "free_offset (last (blocks s)) - sizeof_ahi_node = 0 \<Longrightarrow>
         allocated (s\<lparr>blocks := butlast (blocks s)\<rparr>)
           = allocated s - {(slab_frame (last (blocks s)),
                             free_offset (last (blocks s)) - sizeof_ahi_node)}
         \<and> slab_wf (s\<lparr>blocks := butlast (blocks s)\<rparr>)
         \<and> slab_wf (s\<lparr>spare := Some (slab_frame (last (blocks s))),
                       blocks := butlast (blocks s)\<rparr>)"
    and "free_offset (last (blocks s)) - sizeof_ahi_node \<noteq> 0 \<Longrightarrow>
         allocated (s\<lparr>blocks := butlast (blocks s)
              @ [(last (blocks s))\<lparr>free_offset := free_offset (last (blocks s)) - sizeof_ahi_node\<rparr>]\<rparr>)
           = allocated s - {(slab_frame (last (blocks s)),
                             free_offset (last (blocks s)) - sizeof_ahi_node)}
         \<and> slab_wf (s\<lparr>blocks := butlast (blocks s)
              @ [(last (blocks s))\<lparr>free_offset := free_offset (last (blocks s)) - sizeof_ahi_node\<rparr>]\<rparr>)"
proof -
  define l where "l = last (blocks s)"
  define bs where "bs = butlast (blocks s)"
  define t where "t = (slab_frame l, free_offset l - sizeof_ahi_node)"
  from ne have bl: "blocks s = bs @ [l]" by (simp add: l_def bs_def)
  from wf bl have dist: "distinct (map slab_frame (bs @ [l]))"
    and dv: "sizeof_ahi_node dvd free_offset l" and pos: "free_offset l > 0"
    and all: "list_all (\<lambda>b. free_offset b > 0 \<and> sizeof_ahi_node dvd free_offset b) bs"
    and sp: "spare s \<notin> Some ` slab_frame ` set (bs @ [l])"
    by (auto simp: slab_wf_def)
  note top = block_nodes_top [OF dv pos]
  have A: "allocated s = (\<Union>b \<in> set bs. block_nodes b) \<union> block_nodes l"
    by (auto simp: allocated_def bl)
  have tn: "t \<notin> (\<Union>b \<in> set bs. block_nodes b)"
    using dist unfolding t_def by (auto dest: block_nodes_frame)
  show "sizeof_ahi_node \<le> free_offset (last (blocks s))"
    using top(3) by (simp add: l_def)
  show "(slab_frame (last (blocks s)), free_offset (last (blocks s)) - sizeof_ahi_node)
         \<in> allocated s"
    using top(1) unfolding A l_def [symmetric] by blast
  show "allocated (s\<lparr>blocks := butlast (blocks s)\<rparr>)
           = allocated s - {(slab_frame (last (blocks s)),
                             free_offset (last (blocks s)) - sizeof_ahi_node)}
         \<and> slab_wf (s\<lparr>blocks := butlast (blocks s)\<rparr>)
         \<and> slab_wf (s\<lparr>spare := Some (slab_frame (last (blocks s))),
                       blocks := butlast (blocks s)\<rparr>)"
    if z: "free_offset (last (blocks s)) - sizeof_ahi_node = 0"
  proof -
    from z top(3) have fo: "free_offset l = sizeof_ahi_node" by (simp add: l_def)
    have "l = \<lparr>slab_frame = slab_frame l, free_offset = sizeof_ahi_node\<rparr>"
      using fo by (cases l) simp
    then have "block_nodes l = {(slab_frame l, 0)}"
      using block_nodes_first [of "slab_frame l"] by simp
    then have bt: "block_nodes l = {t}" by (simp add: t_def fo)
    have "allocated (s\<lparr>blocks := bs\<rparr>) = allocated s - {t}"
      unfolding A using bt tn by (auto simp: allocated_def)
    moreover have "slab_wf (s\<lparr>blocks := bs\<rparr>)"
      using dist all sp by (auto simp: slab_wf_def)
    moreover have "slab_wf (s\<lparr>spare := Some (slab_frame l), blocks := bs\<rparr>)"
      using dist all by (auto simp: slab_wf_def)
    ultimately show ?thesis by (simp add: bs_def l_def t_def)
  qed
  show "allocated (s\<lparr>blocks := butlast (blocks s)
              @ [(last (blocks s))\<lparr>free_offset := free_offset (last (blocks s)) - sizeof_ahi_node\<rparr>]\<rparr>)
           = allocated s - {(slab_frame (last (blocks s)),
                             free_offset (last (blocks s)) - sizeof_ahi_node)}
         \<and> slab_wf (s\<lparr>blocks := butlast (blocks s)
              @ [(last (blocks s))\<lparr>free_offset := free_offset (last (blocks s)) - sizeof_ahi_node\<rparr>]\<rparr>)"
    if nz: "free_offset (last (blocks s)) - sizeof_ahi_node \<noteq> 0"
  proof -
    define l' where "l' = l\<lparr>free_offset := free_offset l - sizeof_ahi_node\<rparr>"
    have bl': "block_nodes l' = block_nodes l - {t}"
      unfolding l'_def t_def by (rule top(2))
    have "allocated (s\<lparr>blocks := bs @ [l']\<rparr>) = allocated s - {t}"
      unfolding A bl' [symmetric] using tn bl' by (auto simp: allocated_def)
    moreover have "slab_wf (s\<lparr>blocks := bs @ [l']\<rparr>)"
      using dist all sp nz top(4) by (auto simp: slab_wf_def l'_def l_def)
    ultimately show ?thesis by (simp add: bs_def l_def t_def l'_def)
  qed
qed

subsection \<open>Erasing keeps the table well formed\<close>

lemma calc_hash_update [simp]:
  "calc_hash (s\<lparr>nodes := n\<rparr>) x = calc_hash s x"
  "calc_hash (s\<lparr>cells := c\<rparr>) x = calc_hash s x"
  "calc_hash (s\<lparr>blocks := b\<rparr>) x = calc_hash s x"
  "calc_hash (s\<lparr>spare := sp\<rparr>) x = calc_hash s x"
  "calc_hash (s\<lparr>enabled := e\<rparr>) x = calc_hash s x"
  by (simp_all add: calc_hash_def)

lemma move_top_wf:
  assumes cwf: "chains_wf s (A - {erase})" and e: "erase \<in> A" and t: "t \<in> A"
  shows "\<exists>s2. move_top s erase t = Inr s2
            \<and> chains_wf s2 (A - {t}) \<and> blocks s2 = blocks s \<and> spare s2 = spare s"
proof (cases "erase = t")
  case True
  with cwf show ?thesis by (simp add: move_top_def)
next
  case False
  from chains_wf_relink [OF cwf e t False] obtain chain where
    rf: "replace_first t erase (cells s (calc_hash s (fold_n (nodes s t)))) = Some chain"
    and w: "chains_wf (s\<lparr>nodes := (nodes s)(erase := nodes s t),
                          cells := (cells s)(calc_hash s (fold_n (nodes s t)) := chain)\<rparr>)
               (A - {t})"
    by blast
  have "move_top s erase t
        = Inr (s\<lparr>nodes := (nodes s)(erase := nodes s t),
                 cells := (cells s)(calc_hash s (fold_n (nodes s t)) := chain)\<rparr>)"
    using False rf by (simp add: move_top_def Let_def)
  with w show ?thesis by simp
qed

lemma cleanup_after_erase_wf:
  assumes swf: "slab_wf s" and cwf: "chains_wf s (allocated s - {erase})"
    and e: "erase \<in> allocated s"
  shows "\<exists>block s'. cleanup_after_erase s erase = Inr (block, s') \<and> table_wf s'"
proof -
  from e have ne: "blocks s \<noteq> []" by (auto simp: allocated_def)
  define l where "l = last (blocks s)"
  define t where "t = (slab_frame l, free_offset l - sizeof_ahi_node)"
  note sh = slab_shrink [OF swf ne, folded l_def, folded t_def]
  have guard: "\<not> (blocks s = [] \<or> free_offset (last (blocks s)) < sizeof_ahi_node)"
    using ne sh(1) by (simp add: l_def)
  from move_top_wf [OF cwf e sh(2)] obtain s2 where
    mv: "move_top s erase t = Inr s2"
    and cw2: "chains_wf s2 (allocated s - {t})"
    and b2: "blocks s2 = blocks s" and sp2: "spare s2 = spare s"
    by blast
  have unfold: "cleanup_after_erase s erase =
      (if free_offset l - sizeof_ahi_node = 0 then
         (if spare s2 \<noteq> None
          then Inr (Some (slab_frame l), s2\<lparr>blocks := butlast (blocks s2)\<rparr>)
          else Inr (None, s2\<lparr>spare := Some (slab_frame l), blocks := butlast (blocks s2)\<rparr>))
       else
         Inr (None, s2\<lparr>blocks := butlast (blocks s2)
                         @ [l\<lparr>free_offset := free_offset l - sizeof_ahi_node\<rparr>]\<rparr>))"
    using guard mv
    by (simp only: cleanup_after_erase_def Let_def l_def [symmetric] t_def [symmetric]
        if_False sum.case)
  show ?thesis
  proof (cases "free_offset l - sizeof_ahi_node = 0")
    case True
    note z = sh(3) [OF True]
    show ?thesis
    proof (cases "spare s2 \<noteq> None")
      case T2: True
      let ?s' = "s2\<lparr>blocks := butlast (blocks s2)\<rparr>"
      have cw: "chains_wf ?s' (allocated s - {t})"
        using cw2 by (simp add: chains_wf_def)
      have "allocated ?s' = allocated (s\<lparr>blocks := butlast (blocks s)\<rparr>)"
        by (simp add: allocated_def b2)
      moreover have "slab_wf ?s' = slab_wf (s\<lparr>blocks := butlast (blocks s)\<rparr>)"
        by (simp add: slab_wf_def b2 sp2)
      ultimately have "table_wf ?s'" using z cw by (simp add: table_wf_def)
      moreover have "cleanup_after_erase s erase = Inr (Some (slab_frame l), ?s')"
        using unfold True T2 by simp
      ultimately show ?thesis by blast
    next
      case F2: False
      let ?s' = "s2\<lparr>spare := Some (slab_frame l), blocks := butlast (blocks s2)\<rparr>"
      have cw: "chains_wf ?s' (allocated s - {t})"
        using cw2 by (simp add: chains_wf_def)
      have "allocated ?s' = allocated (s\<lparr>blocks := butlast (blocks s)\<rparr>)"
        by (simp add: allocated_def b2)
      moreover have "slab_wf ?s'
          = slab_wf (s\<lparr>spare := Some (slab_frame l), blocks := butlast (blocks s)\<rparr>)"
        by (simp add: slab_wf_def b2)
      ultimately have "table_wf ?s'" using z cw by (simp add: table_wf_def)
      moreover have "cleanup_after_erase s erase = Inr (None, ?s')"
        using unfold True F2 by simp
      ultimately show ?thesis by blast
    qed
  next
    case False
    note nz = sh(4) [OF False]
    let ?s' = "s2\<lparr>blocks := butlast (blocks s2)
                  @ [l\<lparr>free_offset := free_offset l - sizeof_ahi_node\<rparr>]\<rparr>"
    have cw: "chains_wf ?s' (allocated s - {t})"
      using cw2 by (simp add: chains_wf_def)
    have "allocated ?s' = allocated (s\<lparr>blocks := butlast (blocks s)
                  @ [l\<lparr>free_offset := free_offset l - sizeof_ahi_node\<rparr>]\<rparr>)"
      by (simp add: allocated_def b2)
    moreover have "slab_wf ?s' = slab_wf (s\<lparr>blocks := butlast (blocks s)
                  @ [l\<lparr>free_offset := free_offset l - sizeof_ahi_node\<rparr>]\<rparr>)"
      by (simp add: slab_wf_def b2 sp2)
    ultimately have "table_wf ?s'" using nz cw by (simp add: table_wf_def)
    moreover have "cleanup_after_erase s erase = Inr (None, ?s')"
      using unfold False by simp
    ultimately show ?thesis by blast
  qed
qed

lemma unlink_first_Some:
  assumes "unlink_first P chain = Some (node, chain')" and "distinct chain"
  shows "node \<in> set chain \<and> P node \<and> set chain' = set chain - {node} \<and> distinct chain'"
  using assms
proof (induction chain arbitrary: chain')
  case Nil
  then show ?case by simp
next
  case (Cons p ps)
  show ?case
  proof (cases "P p")
    case True
    with Cons.prems show ?thesis by auto
  next
    case False
    with Cons.prems obtain ch where u: "unlink_first P ps = Some (node, ch)"
      and c': "chain' = p # ch"
      by (auto split: option.splits)
    from Cons.IH [OF u] Cons.prems(2)
    have "node \<in> set ps \<and> P node \<and> set ch = set ps - {node} \<and> distinct ch" by simp
    with c' Cons.prems(2) show ?thesis by auto
  qed
qed

lemma chains_wf_unlink:
  assumes wf: "chains_wf s A"
    and u: "unlink_first P (cells s c) = Some (node, chain)"
  shows "chains_wf (s\<lparr>cells := (cells s)(c := chain)\<rparr>) (A - {node}) \<and> node \<in> A"
proof -
  from wf have U: "(\<Union>c. set (cells s c)) = A"
    and dist: "\<And>c. distinct (cells s c)"
    and disj: "\<And>c c'. c \<noteq> c' \<Longrightarrow> set (cells s c) \<inter> set (cells s c') = {}"
    and fold_ok: "\<And>c p. p \<in> set (cells s c) \<Longrightarrow> calc_hash s (fold_n (nodes s p)) = c"
    and n: "n_cells s > 0"
    by (auto simp: chains_wf_def)
  from unlink_first_Some [OF u dist]
  have nin: "node \<in> set (cells s c)" and sc: "set chain = set (cells s c) - {node}"
    and dc: "distinct chain" by blast+
  have nnot: "node \<notin> set (cells s c')" if "c' \<noteq> c" for c'
    using disj [OF that] nin by blast
  let ?s = "s\<lparr>cells := (cells s)(c := chain)\<rparr>"
  have cells': "cells ?s c' = (if c' = c then chain else cells s c')" for c' by simp
  have "n_cells ?s > 0" using n by simp
  moreover have "distinct (cells ?s c')" for c'
    using dist dc by (simp add: cells')
  moreover have "set (cells ?s c1) \<inter> set (cells ?s c2) = {}" if "c1 \<noteq> c2" for c1 c2
    using disj [OF that] that sc disj [of c1 c] disj [of c c2]
    by (auto simp: cells')
  moreover have "(\<Union>c'. set (cells ?s c')) = A - {node}"
  proof -
    have "(\<Union>c'. set (cells ?s c')) = (\<Union>c'. set (cells s c')) - {node}"
      using sc nnot nin by (auto simp: cells' split: if_splits)
    with U show ?thesis by simp
  qed
  moreover have "calc_hash ?s (fold_n (nodes ?s p)) = c'" if "p \<in> set (cells ?s c')" for c' p
  proof -
    from that sc have "p \<in> set (cells s c')" by (auto simp: cells' split: if_splits)
    from fold_ok [OF this] show ?thesis by (simp add: calc_hash_def)
  qed
  ultimately have "chains_wf ?s (A - {node})" unfolding chains_wf_def by blast
  moreover from nin U have "node \<in> A" by blast
  ultimately show ?thesis by blast
qed

lemma unlink_cleanup_wf:
  assumes wf: "table_wf s"
    and u: "unlink_first P (cells s c) = Some (node, chain)"
  shows "\<exists>block s'. cleanup_after_erase (s\<lparr>cells := (cells s)(c := chain)\<rparr>) node
                       = Inr (block, s') \<and> table_wf s'"
proof -
  let ?s = "s\<lparr>cells := (cells s)(c := chain)\<rparr>"
  from wf have swf: "slab_wf s" and cwf: "chains_wf s (allocated s)"
    by (simp_all add: table_wf_def)
  have al: "allocated ?s = allocated s" by (simp add: allocated_def)
  have "slab_wf ?s" using swf by (simp add: slab_wf_def)
  moreover from chains_wf_unlink [OF cwf u]
  have "chains_wf ?s (allocated ?s - {node})" "node \<in> allocated ?s"
    by (simp_all add: al)
  ultimately show ?thesis by (rule cleanup_after_erase_wf)
qed

lemma partition_erase_wf:
  assumes "table_wf s"
  shows "\<exists>found block s'. partition_erase s fold0 r = Inr (found, block, s') \<and> table_wf s'"
proof (cases "unlink_first (\<lambda>node. rec_n (nodes s node) = r) (cells s (calc_hash s fold0))")
  case None
  with assms show ?thesis by (auto simp: partition_erase_def)
next
  case (Some a)
  then obtain node chain where
    u: "unlink_first (\<lambda>node. rec_n (nodes s node) = r) (cells s (calc_hash s fold0))
        = Some (node, chain)" by (cases a) auto
  from unlink_cleanup_wf [OF assms u] obtain block s' where
    "cleanup_after_erase (s\<lparr>cells := (cells s)(calc_hash s fold0 := chain)\<rparr>) node
     = Inr (block, s')" "table_wf s'" by blast
  with u show ?thesis by (auto simp: partition_erase_def)
qed

lemma ha_remove_all_nodes_to_page_wf:
  assumes "table_wf s"
  shows "\<exists>s'. ha_remove_all_nodes_to_page ps s fold0 page0 = Inr s' \<and> table_wf s'"
  using assms
proof (induction ps s fold0 page0 rule: ha_remove_all_nodes_to_page.induct)
  case (1 ps s fold0 page0)
  show ?case
  proof (cases "unlink_first (\<lambda>node. (rec_n (nodes s node) XOR page0) < ps)
                  (cells s (calc_hash s fold0))")
    case None
    with 1(2) show ?thesis
      by (subst ha_remove_all_nodes_to_page.simps) simp
  next
    case (Some a)
    then obtain node chain where
      u: "unlink_first (\<lambda>node. (rec_n (nodes s node) XOR page0) < ps)
            (cells s (calc_hash s fold0)) = Some (node, chain)" by (cases a) auto
    from unlink_cleanup_wf [OF 1(2) u] obtain block s1 where
      cl: "cleanup_after_erase (s\<lparr>cells := (cells s)(calc_hash s fold0 := chain)\<rparr>) node
           = Inr (block, s1)" and wf1: "table_wf s1" by blast
    from 1(1) [OF refl u refl cl refl wf1]
    obtain s' where "ha_remove_all_nodes_to_page ps s1 fold0 page0 = Inr s'" "table_wf s'"
      by blast
    with u cl show ?thesis
      by (subst ha_remove_all_nodes_to_page.simps) simp
  qed
qed

lemma ha_search_and_update_if_found_wf:
  assumes "table_wf s"
  shows "table_wf (snd (ha_search_and_update_if_found s fold0 data0 new_data))"
proof -
  have "table_wf (s\<lparr>nodes := (nodes s)(p := (nodes s p)\<lparr>rec_n := r\<rparr>)\<rparr>)" for p r
    using assms chains_wf_update_rec [of s "allocated s" p r]
    by (simp add: table_wf_def slab_wf_def allocated_def)
  with assms show ?thesis
    by (simp add: ha_search_and_update_if_found_def split: option.splits)
qed

lemma prepare_insert_wf:
  assumes "table_wf s" and "block \<notin> slab_frame ` set (blocks s)"
  shows "table_wf (prepare_insert block s)"
  using assms
  by (auto simp: prepare_insert_def table_wf_def slab_wf_def allocated_def chains_wf_def
      calc_hash_def)

subsection \<open>Reachable tables\<close>

lemma empty_table_wf: "n > 0 \<Longrightarrow> table_wf (empty_table n mem)"
  by (simp add: empty_table_def table_wf_def slab_wf_def chains_wf_def allocated_def)

lemma reachable_table_wf: "reachable ps s \<Longrightarrow> table_wf s"
proof (induction rule: reachable.induct)
  case (reach_empty n mem)
  then show ?case by (rule empty_table_wf)
next
  case (reach_prepare s block)
  then show ?case by (simp add: prepare_insert_wf)
next
  case (reach_insert s fold0 rec)
  then show ?case by (simp add: partition_insert_wf)
next
  case (reach_erase s fold0 rec found block s')
  with partition_erase_wf [of s fold0 rec] show ?case by auto
next
  case (reach_remove s fold0 page0 s')
  with ha_remove_all_nodes_to_page_wf [of s ps fold0 page0] show ?case by auto
next
  case (reach_update s fold0 data0 new_data found s')
  with ha_search_and_update_if_found_wf [of s fold0 data0 new_data] show ?case by auto
qed

text \<open>On a reachable table the erasing operations return: they do not run off a chain.\<close>

lemma reachable_erase_returns:
  assumes "reachable ps s"
  shows "\<exists>found block s'. partition_erase s fold0 r = Inr (found, block, s')"
    and "\<exists>s'. ha_remove_all_nodes_to_page ps s fold0 page0 = Inr s'"
  using partition_erase_wf [OF reachable_table_wf [OF assms], of fold0 r]
    ha_remove_all_nodes_to_page_wf [OF reachable_table_wf [OF assms], of ps fold0 page0]
  by blast+

text \<open>
  C9. In every reachable state of the hash table, every node \<open>p\<close> in the chain of a cell
  \<open>c\<close> satisfies \<open>fold mod n_cells = c\<close>. The reachable states are closed under
  \<^verbatim>\<open>insert\<close>, which appends a new node to the chain of the cell computed from its
  fold, and under \<^verbatim>\<open>erase\<close>, whose slab compaction (\<open>move_top\<close>) redirects the chain
  of the cell computed from the fold of the moved top node.
\<close>

theorem reachable_fold_cell:
  assumes "reachable page_size s" and "p \<in> set (cells s c)"
  shows "unat (fold_n (nodes s p)) mod n_cells s = c"
  using reachable_table_wf [OF assms(1)] assms(2)
  by (auto simp: table_wf_def chains_wf_def calc_hash_def)

subsection \<open>A reachable table after a compaction\<close>

lemma ex_table_fields:
  "n_cells ex_table = 5"
  "cells ex_table 2 = [(32768, 0)]"
  "cells ex_table 3 = [(32768, 24)]"
  "blocks ex_table = [\<lparr>slab_frame = 32768, free_offset = 48\<rparr>]"
  "nodes ex_table (32768, 0) = \<lparr>fold_n = 7, rec_n = 16500\<rparr>"
  "nodes ex_table (32768, 24) = \<lparr>fold_n = 8, rec_n = 16600\<rparr>"
  "spare ex_table = None"
  by (simp_all add: ex_table_def partition_insert_def prepare_insert_def empty_table_def
      slab_alloc_def calc_hash_def sizeof_ahi_node_def Let_def ex_mem_def)

lemma ex_table_reachable: "reachable 16384 ex_table"
  unfolding ex_table_def
  by (intro reach_insert reach_prepare reach_empty) (simp_all add: empty_table_def)

lemma ex_erased_fields:
  "partition_erase ex_table 7 16500 = Inr (True, None, ex_erased)"
  "n_cells ex_erased = 5"
  "cells ex_erased 2 = []"
  "cells ex_erased 3 = [(32768, 0)]"
  "nodes ex_erased (32768, 0) = \<lparr>fold_n = 8, rec_n = 16600\<rparr>"
  "blocks ex_erased = [\<lparr>slab_frame = 32768, free_offset = 24\<rparr>]"
  by (simp_all add: ex_erased_def partition_erase_def cleanup_after_erase_def move_top_def
      calc_hash_def ex_table_fields sizeof_ahi_node_def Let_def)

lemma ex_erased_reachable: "reachable 16384 ex_erased"
  by (rule reach_erase [OF ex_table_reachable ex_erased_fields(1)])

theorem reachable_fold_cell_witness:
  "reachable 16384 ex_erased \<and> (32768, 0) \<in> set (cells ex_erased 3)
   \<and> nodes ex_erased (32768, 0) = \<lparr>fold_n = 8, rec_n = 16600\<rparr>
   \<and> unat (fold_n (nodes ex_erased (32768, 0))) mod n_cells ex_erased = 3"
  using reachable_fold_cell [of 16384 ex_erased "(32768, 0)" 3]
    ex_erased_reachable ex_erased_fields
  by simp

subsection \<open>Insertion and the spare block\<close>

lemma partition_insert_found:
  assumes "find (\<lambda>prev. fold_n (nodes s prev) = fold0) (cell_get s fold0) = Some prev"
  shows "partition_insert ps s fold0 r
         = s\<lparr>nodes := (nodes s)(prev := (nodes s prev)\<lparr>rec_n := r\<rparr>)\<rparr>"
  using assms by (simp add: partition_insert_def cell_get_def)

lemma partition_insert_new:
  assumes "find (\<lambda>prev. fold_n (nodes s prev) = fold0) (cell_get s fold0) = None"
    and "slab_alloc ps s = Some (node, s1)"
  shows "cells (partition_insert ps s fold0 r) (calc_hash s fold0)
         = cells s (calc_hash s fold0) @ [node]"
    and "nodes (partition_insert ps s fold0 r) node = \<lparr>fold_n = fold0, rec_n = r\<rparr>"
    and "n_cells (partition_insert ps s fold0 r) = n_cells s"
  using assms slab_alloc_frame [OF assms(2)]
  by (simp_all add: partition_insert_def cell_get_def Let_def)

lemma partition_insert_no_spare:
  assumes "find (\<lambda>prev. fold_n (nodes s prev) = fold0) (cell_get s fold0) = None"
    and "slab_full ps s" and "spare s = None"
  shows "partition_insert ps s fold0 r = s"
  using assms
  by (auto simp: partition_insert_def cell_get_def slab_alloc_def slab_full_def)

lemma partition_insert_spare:
  assumes "spare s \<noteq> None"
  shows "\<exists>p \<in> set (cell_get (partition_insert ps s fold0 r) fold0).
           nodes (partition_insert ps s fold0 r) p = \<lparr>fold_n = fold0, rec_n = r\<rparr>"
proof (cases "find (\<lambda>prev. fold_n (nodes s prev) = fold0) (cell_get s fold0)")
  case (Some prev)
  from find_Some_set [OF Some] have "prev \<in> set (cell_get s fold0)"
    and "fold_n (nodes s prev) = fold0" by simp_all
  then show ?thesis
    unfolding partition_insert_found [OF Some]
    by (intro bexI [of _ prev]) (simp_all add: cell_get_def)
next
  case None
  from assms obtain node s1 where al: "slab_alloc ps s = Some (node, s1)"
    by (cases "slab_alloc ps s") (auto simp: slab_alloc_def Let_def split: if_splits)
  note new = partition_insert_new [OF None al, of r]
  have "calc_hash (partition_insert ps s fold0 r) fold0 = calc_hash s fold0"
    using new(3) by (simp add: calc_hash_def)
  then have "node \<in> set (cell_get (partition_insert ps s fold0 r) fold0)"
    using new(1) by (simp add: cell_get_def)
  with new(2) show ?thesis by blast
qed

text \<open>
  C6. When \<^verbatim>\<open>insert(fold, rec)\<close> has found no node with this fold in the chain, the last
  slab block is full (or there is no slab block) and the spare block is null, it returns
  the state unchanged: neither the hash table nor the slab is modified. When the index
  is enabled, \<^verbatim>\<open>prepare_insert\<close> leaves a spare block installed, and the insert that
  follows it succeeds: afterwards the chain of the fold's cell holds a node with this
  fold and this record.
\<close>

theorem insert_needs_spare:
  "(find (\<lambda>prev. fold_n (nodes s prev) = fold0) (cell_get s fold0) = None
      \<and> slab_full page_size s \<and> spare s = None
    \<longrightarrow> partition_insert page_size s fold0 r = s)
   \<and> (enabled s
      \<longrightarrow> spare (prepare_insert block s) \<noteq> None
        \<and> (\<exists>p \<in> set (cell_get (partition_insert page_size (prepare_insert block s) fold0 r)
                      fold0).
             nodes (partition_insert page_size (prepare_insert block s) fold0 r) p
             = \<lparr>fold_n = fold0, rec_n = r\<rparr>))"
proof (intro conjI impI)
  assume "find (\<lambda>prev. fold_n (nodes s prev) = fold0) (cell_get s fold0) = None
      \<and> slab_full page_size s \<and> spare s = None"
  then show "partition_insert page_size s fold0 r = s"
    by (simp add: partition_insert_no_spare)
next
  assume "enabled s"
  then show sp: "spare (prepare_insert block s) \<noteq> None"
    by (simp add: prepare_insert_def)
  then show "\<exists>p \<in> set (cell_get (partition_insert page_size (prepare_insert block s) fold0 r)
                      fold0).
             nodes (partition_insert page_size (prepare_insert block s) fold0 r) p
             = \<lparr>fold_n = fold0, rec_n = r\<rparr>"
    by (rule partition_insert_spare)
qed

lemma ex_empty_insert:
  "find (\<lambda>prev. fold_n (nodes (empty_table 5 ex_mem) prev) = 7)
        (cell_get (empty_table 5 ex_mem) 7) = None"
  "slab_full 16384 (empty_table 5 ex_mem)"
  "spare (empty_table 5 ex_mem) = None"
  "enabled (empty_table 5 ex_mem)"
  by (simp_all add: empty_table_def cell_get_def slab_full_def)

theorem insert_needs_spare_witness:
  "partition_insert 16384 (empty_table 5 ex_mem) 7 16500 = empty_table 5 ex_mem
   \<and> spare (prepare_insert 32768 (empty_table 5 ex_mem)) = Some 32768
   \<and> cell_get (partition_insert 16384 (prepare_insert 32768 (empty_table 5 ex_mem)) 7 16500) 7
     = [(32768, 0)]
   \<and> nodes (partition_insert 16384 (prepare_insert 32768 (empty_table 5 ex_mem)) 7 16500)
        (32768, 0) = \<lparr>fold_n = 7, rec_n = 16500\<rparr>"
  using insert_needs_spare [of "empty_table 5 ex_mem" 7 16384 16500 32768] ex_empty_insert
  by (simp add: partition_insert_def prepare_insert_def empty_table_def
      slab_alloc_def calc_hash_def cell_get_def sizeof_ahi_node_def Let_def ex_mem_def)

text \<open>
  Where the compaction moves the top node, the copy sits in the chain of the cell of its
  own fold, and the old top node is in no chain any more.
\<close>

lemma move_top_relinks:
  assumes wf: "chains_wf s (A - {erase})" and e: "erase \<in> A" and t: "top_node \<in> A"
    and ne: "erase \<noteq> top_node"
  shows "\<exists>s2. move_top s erase top_node = Inr s2
           \<and> nodes s2 erase = nodes s top_node
           \<and> erase \<in> set (cells s2 (calc_hash s2 (fold_n (nodes s2 erase))))
           \<and> (\<forall>c. top_node \<notin> set (cells s2 c))"
proof -
  from chains_wf_relink [OF wf e t ne] obtain chain where
    rf: "replace_first top_node erase (cells s (calc_hash s (fold_n (nodes s top_node))))
         = Some chain"
    and w: "chains_wf (s\<lparr>nodes := (nodes s)(erase := nodes s top_node),
                          cells := (cells s)(calc_hash s (fold_n (nodes s top_node)) := chain)\<rparr>)
               (A - {top_node})"
    by blast
  let ?s2 = "s\<lparr>nodes := (nodes s)(erase := nodes s top_node),
               cells := (cells s)(calc_hash s (fold_n (nodes s top_node)) := chain)\<rparr>"
  have mv: "move_top s erase top_node = Inr ?s2"
    using ne rf by (simp add: move_top_def Let_def)
  from w have U: "(\<Union>c. set (cells ?s2 c)) = A - {top_node}"
    and fold_ok: "\<And>c p. p \<in> set (cells ?s2 c) \<Longrightarrow> calc_hash ?s2 (fold_n (nodes ?s2 p)) = c"
    by (auto simp: chains_wf_def)
  from U e ne obtain c where c: "erase \<in> set (cells ?s2 c)" by blast
  from fold_ok [OF c] have "calc_hash ?s2 (fold_n (nodes ?s2 erase)) = c" .
  with c have "erase \<in> set (cells ?s2 (calc_hash ?s2 (fold_n (nodes ?s2 erase))))"
    by (simp only:)
  moreover from U have "\<forall>c. top_node \<notin> set (cells ?s2 c)" by blast
  moreover have "nodes ?s2 erase = nodes s top_node" by simp
  ultimately show ?thesis using mv by blast
qed

subsection \<open>An index with one hashed page\<close>





lemma ex_world_fields:
  "enabled (btr_search (ex_world left))"
  "buf_pool (ex_world left) b = ex_key_block left"
  "dict (ex_world left) ix = ex_key_index left"
  "srv_page_size (ex_world left) = 16384"
  "btr_search (ex_world left) = ex_key_table"
  by (simp_all add: ex_world_def ex_key_table_def)

lemma ex_block_fields:
  "index (ex_key_block left) = Some 1"
  "curr_n_fields (ex_key_block left) = 1"
  "curr_n_bytes (ex_key_block left) = 0"
  "curr_left_side (ex_key_block left) = left"
  "page_rec_get_next_const (frame (ex_key_block left)) 16500 = Some 16600"
  "page_rec_get_next_const (frame (ex_key_block left)) 16600 = Some 16496"
  "page_rec_is_supremum (frame (ex_key_block left)) 16496"
  "\<not> page_rec_is_infimum (frame (ex_key_block left)) 16500"
  "\<not> rec_metadata (frame (ex_key_block left)) r"
  "page_index_id (frame (ex_key_block left)) = 7"
  "page_get_n_recs (frame (ex_key_block left)) = 2"
  by (simp_all add: ex_key_block_def page_rec_get_next_const_def page_rec_is_supremum_def
      page_rec_is_infimum_def page_get_n_recs_def)



subsection \<open>Garbage collection of the pages of a live index\<close>

text \<open>
  C10. For every block whose owning index is not marked freed (and for a block that has
  no owning index), \<^verbatim>\<open>btr_search_drop_page_hash_index\<close> with \<open>garbage_collect = true\<close>
  returns the state it was called in: the hash table, the block's signature fields and
  index pointer and the index's \<open>ref_count\<close> are unchanged.
\<close>

theorem drop_garbage_collect_live_index:
  assumes "\<And>ix. index (buf_pool w block) = Some ix \<Longrightarrow> \<not> freed (dict w ix)"
  shows "btr_search_drop_page_hash_index w block True = Inr w"
proof (cases "index (buf_pool w block)")
  case None
  then show ?thesis by (simp add: btr_search_drop_page_hash_index_def)
next
  case (Some ix)
  with assms have "\<not> freed (dict w ix)" by simp
  with Some show ?thesis by (simp add: btr_search_drop_page_hash_index_def Let_def)
qed

text \<open>C10 on the example state: the page is hashed and its index is live.\<close>

theorem drop_garbage_collect_live_index_witness:
  "index (buf_pool (ex_world False) 16384) = Some 1
   \<and> \<not> freed (dict (ex_world False) 1)
   \<and> btr_search_drop_page_hash_index (ex_world False) 16384 True = Inr (ex_world False)"
  using drop_garbage_collect_live_index [of "ex_world False" 16384]
  by (simp add: ex_world_fields ex_block_fields ex_key_index_def)

subsection \<open>The hash node on insert\<close>




text \<open>What the retargeting does to the chain of the fold's cell.\<close>

lemma ha_search_and_update_if_found_node:
  assumes "enabled s"
    and "find (\<lambda>node. rec_n (nodes s node) = data0) (cell_get s fold0) = Some node"
  shows "ha_search_and_update_if_found s fold0 data0 new_data
         = (True, s\<lparr>nodes := (nodes s)(node := (nodes s node)\<lparr>rec_n := new_data\<rparr>)\<rparr>)"
  using assms by (simp add: ha_search_and_update_if_found_def)


subsection \<open>What a successful guess guarantees\<close>

lemma guess_fail_fields:
  "fst (guess_fail w ix cursor) = False"
  "flag (fst (snd (guess_fail w ix cursor))) = BTR_CUR_HASH_FAIL"
  "search_info (dict (snd (snd (guess_fail w ix cursor))) ix)
   = (search_info (dict w ix))\<lparr>last_hash_succ := False\<rparr>"
  by (simp_all add: guess_fail_def)
















subsection \<open>The cap on the potential counter\<close>











end
